theory Spec2Isabelle
  imports Main "HOL-Library.Monad_Syntax"
begin

section \<open>C arithmetic and memory\<close>

text \<open>
  An \<open>int\<close> of the program has 32 bits. In \<open>main\<close>, where the values come from the command
  line, its range is modelled: a signed operation whose result lies outside the range is
  undefined (\<open>c_int\<close>), and the conversion of the \<open>long\<close> that \<open>strtol\<close> returns reduces it
  modulo \<open>2 ^ 32\<close> (\<open>int_of_long\<close>: the conversion is implementation-defined, and this is
  what gcc and clang define). In the threads every index is below \<open>m * n\<close> and every
  counter is bounded by \<open>thread_count\<close>, \<open>max_gens\<close> or \<open>m * n\<close>, values that \<open>main\<close> has
  computed in \<open>int\<close>; there the operations are those of the integers, with which C's
  agree for a world of at most \<open>2 ^ 30\<close> rows and columns. Division and
  remainder truncate towards zero, as C's do; a zero divisor, the quotient of \<open>INT_MIN\<close>
  by \<open>-1\<close> and an access outside an allocated block are undefined behaviour, the result
  \<open>None\<close> of the model.
\<close>

abbreviation (input) INT_MAX :: int where "INT_MAX \<equiv> 2147483647"
abbreviation (input) INT_MIN :: int where "INT_MIN \<equiv> - 2147483648"

definition c_int :: "int \<Rightarrow> int option" where
  "c_int x = (if INT_MIN \<le> x \<and> x \<le> INT_MAX then Some x else None)"

definition int_of_long :: "int \<Rightarrow> int" where
  "int_of_long x = (x + 2147483648) mod 4294967296 - 2147483648"

definition c_div :: "int \<Rightarrow> int \<Rightarrow> int option" where
  "c_div a b = (if b = 0 \<or> (a = INT_MIN \<and> b = - 1) then None
                else Some (sgn a * sgn b * (\<bar>a\<bar> div \<bar>b\<bar>)))"

definition c_mod :: "int \<Rightarrow> int \<Rightarrow> int option" where
  "c_mod a b = (if b = 0 \<or> (a = INT_MIN \<and> b = - 1) then None
                else Some (a - b * (sgn a * sgn b * (\<bar>a\<bar> div \<bar>b\<bar>))))"

definition load :: "int list \<Rightarrow> int \<Rightarrow> int option" where
  "load a k = (if 0 \<le> k \<and> k < int (length a) then Some (a ! nat k) else None)"

definition store :: "int list \<Rightarrow> int \<Rightarrow> int \<Rightarrow> int list option" where
  "store a k v = (if 0 \<le> k \<and> k < int (length a) then Some (a[nat k := v]) else None)"

text \<open>A \<open>for\<close> loop over the values \<open>xs\<close> of its variable, threading the state.\<close>

fun for_each :: "'a list \<Rightarrow> ('a \<Rightarrow> 's \<Rightarrow> 's option) \<Rightarrow> 's \<Rightarrow> 's option" where
  "for_each [] body st = Some st"
| "for_each (x # xs) body st =
     (case body x st of None \<Rightarrow> None | Some st' \<Rightarrow> for_each xs body st')"

abbreviation (input) LIVE :: int where "LIVE \<equiv> 1"
abbreviation (input) DEAD :: int where "DEAD \<equiv> 0"
abbreviation (input) LIVE_IO :: char where "LIVE_IO \<equiv> CHR ''X''"
abbreviation (input) DEAD_IO :: char where "DEAD_IO \<equiv> CHR '' ''"
abbreviation (input) newline :: char where "newline \<equiv> CHR 0x0A"

section \<open>Count_nbhrs\<close>

definition Count_nbhrs :: "int list \<Rightarrow> int \<Rightarrow> int \<Rightarrow> int \<Rightarrow> int \<Rightarrow> int option" where
  "Count_nbhrs wp m n i j = do {
     count \<leftarrow> for_each [i - 1..i + 1] (\<lambda>i1. for_each [j - 1..j + 1] (\<lambda>j1 count. do {
                i2 \<leftarrow> c_mod (i1 + m) m;
                j2 \<leftarrow> c_mod (j1 + n) n;
                v \<leftarrow> load wp (i2 * n + j2);
                Some (count + v) })) 0;
     v \<leftarrow> load wp (i * n + j);
     Some (count - v) }"

section \<open>Print_world\<close>

definition Print_world :: "string \<Rightarrow> int list \<Rightarrow> int \<Rightarrow> int \<Rightarrow> string option" where
  "Print_world title wp m n = do {
     out \<leftarrow> for_each [0..m - 1] (\<lambda>i out. do {
              out' \<leftarrow> for_each [0..n - 1] (\<lambda>j out. do {
                        v \<leftarrow> load wp (i * n + j);
                        Some (out @ [if v = LIVE then LIVE_IO else DEAD_IO]) }) out;
              Some (out' @ [newline]) }) [];
     Some (out @ title @ [newline, newline]) }"

text \<open>The conversion \<open>%d\<close> of \<open>sprintf\<close>.\<close>

fun dec :: "nat \<Rightarrow> string" where
  "dec k = (if k < 10 then [char_of (48 + k)] else dec (k div 10) @ [char_of (48 + k mod 10)])"

declare dec.simps [simp del]

definition show_int :: "int \<Rightarrow> string" where
  "show_int k = (if k < 0 then CHR ''-'' # dec (nat (- k)) else dec (nat k))"

section \<open>The shared state and the threads\<close>

text \<open>
  The two blocks that \<open>main\<close> allocates are \<open>w1\<close> and \<open>w2\<close>; the globals \<open>wp\<close> and
  \<open>twp\<close> are pointers to them. A block that \<open>malloc\<close> did not return has no cell, so that
  every access to it is undefined. A thread is at one of these places of \<open>Play_life\<close>:
  \<open>Top\<close>, the test of the \<open>while\<close> loop; \<open>Tile k\<close>, in the two \<open>for\<close> loops with \<open>k\<close>
  cells of its tile done; \<open>Load k\<close>, in \<open>live_count++\<close> for the cell \<open>k\<close>, about to read
  \<open>live_count\<close>; \<open>Store k v\<close>, there with the value \<open>v\<close> read, about to write \<open>v + 1\<close>;
  \<open>Waiting\<close>, blocked in \<open>pthread_cond_wait\<close>; \<open>Woken\<close>, back from \<open>Barrier\<close> and about to
  test \<open>break_flag\<close>; \<open>Exited\<close>, returned. A thread that \<open>pthread_create\<close> failed to
  start is \<open>NotCreated\<close>.
\<close>

datatype buf = W1 | W2

datatype pc = Top | Tile nat | Load nat | Store nat int | Waiting | Woken | Exited | NotCreated

record thread =
  my_first_row :: int
  my_last_row :: int
  my_first_col :: int
  my_last_col :: int
  pc :: pc

record state =
  thread_count :: int
  g_r :: int
  g_s :: int
  g_m :: int
  g_n :: int
  g_wp :: buf
  g_twp :: buf
  max_gens :: int
  barrier_count :: int
  curr_gen :: int
  live_count :: int
  break_flag :: int
  w1 :: "int list"
  w2 :: "int list"
  stdout :: string
  threads :: "thread list"

definition deref :: "state \<Rightarrow> buf \<Rightarrow> int list" where
  "deref st b = (case b of W1 \<Rightarrow> w1 st | W2 \<Rightarrow> w2 st)"

definition assign :: "buf \<Rightarrow> int list \<Rightarrow> state \<Rightarrow> state" where
  "assign b a st = (case b of W1 \<Rightarrow> st\<lparr>w1 := a\<rparr> | W2 \<Rightarrow> st\<lparr>w2 := a\<rparr>)"

definition set_pc :: "nat \<Rightarrow> pc \<Rightarrow> state \<Rightarrow> state" where
  "set_pc t p st = st\<lparr>threads := (threads st)[t := (threads st ! t)\<lparr>pc := p\<rparr>]\<rparr>"

section \<open>Play_life\<close>

text \<open>The first four assignments of \<open>Play_life\<close>: the tile of the thread \<open>myrank\<close>.\<close>

definition Play_life_entry :: "state \<Rightarrow> int \<Rightarrow> thread option" where
  "Play_life_entry st myrank = do {
     q \<leftarrow> c_div myrank (g_s st);
     h \<leftarrow> c_div (g_m st) (g_r st);
     c \<leftarrow> c_mod myrank (g_s st);
     w \<leftarrow> c_div (g_n st) (g_s st);
     Some \<lparr>my_first_row = q * h, my_last_row = q * h + h,
           my_first_col = c * w, my_last_col = c * w + w, pc = Top\<rparr> }"

text \<open>The cells the two \<open>for\<close> loops visit, in their order.\<close>

definition tile_cells :: "thread \<Rightarrow> (int \<times> int) list" where
  "tile_cells th = concat (map (\<lambda>i. map (Pair i) [my_first_col th..my_last_col th - 1])
                                [my_first_row th..my_last_row th - 1])"

text \<open>
  The body of the inner loop at the cell \<open>(i, j)\<close>, up to the test of the cell written:
  the count of the neighbours and the store into the next buffer.
\<close>

definition Play_cell :: "int \<times> int \<Rightarrow> state \<Rightarrow> state option" where
  "Play_cell c st = (case c of (i, j) \<Rightarrow> do {
     count \<leftarrow> Count_nbhrs (deref st (g_wp st)) (g_m st) (g_n st) i j;
     v \<leftarrow> (if count < 2 \<or> count > 3 then Some DEAD
           else if count = 2 then load (deref st (g_wp st)) (i * g_n st + j)
           else Some LIVE);
     a \<leftarrow> store (deref st (g_twp st)) (i * g_n st + j) v;
     Some (assign (g_twp st) a st) })"

text \<open>The test \<open>twp[i*n + j] == LIVE\<close> that follows.\<close>

definition written_live :: "int \<times> int \<Rightarrow> state \<Rightarrow> bool option" where
  "written_live c st = (case c of (i, j) \<Rightarrow> do {
     x \<leftarrow> load (deref st (g_twp st)) (i * g_n st + j);
     Some (x = LIVE) })"

section \<open>Barrier and Pointer_swap\<close>

definition Pointer_swap :: "state \<Rightarrow> state option" where
  "Pointer_swap st = do {
     let st1 = st\<lparr>g_wp := g_twp st, g_twp := g_wp st\<rparr>;
     let st2 = st1\<lparr>curr_gen := curr_gen st1 + 1\<rparr>;
     let title = ''Generation '' @ show_int (curr_gen st2);
     out \<leftarrow> Print_world title (deref st2 (g_wp st2)) (g_m st2) (g_n st2);
     Some (st2\<lparr>stdout := stdout st2 @ out\<rparr>) }"

text \<open>\<open>pthread_cond_broadcast\<close>: every thread blocked on the condition is woken.\<close>

definition broadcast :: "state \<Rightarrow> state" where
  "broadcast st =
     st\<lparr>threads := map (\<lambda>th. if pc th = Waiting then th\<lparr>pc := Woken\<rparr> else th) (threads st)\<rparr>"

text \<open>
  \<open>Barrier\<close> as called by the thread \<open>t\<close>, from the lock of the mutex to the unlock, or to
  the wait for a thread that is not the last to arrive. The mutex makes it one step.
\<close>

definition Barrier :: "nat \<Rightarrow> state \<Rightarrow> state option" where
  "Barrier t st = (
     let st1 = st\<lparr>barrier_count := barrier_count st + 1\<rparr> in
     if barrier_count st1 = thread_count st1 then do {
       st2 \<leftarrow> (if live_count st1 = 0 then Some (st1\<lparr>break_flag := 1\<rparr>) else Pointer_swap st1);
       let st3 = st2\<lparr>barrier_count := 0\<rparr>;
       let st4 = st3\<lparr>live_count := 0\<rparr>;
       Some (set_pc t Woken (broadcast st4)) }
     else Some (set_pc t Waiting st1))"

section \<open>Runs\<close>

text \<open>
  One step of the thread \<open>t\<close>. The body of the inner loop is three steps for a cell
  written \<open>LIVE\<close>: the statements up to the test, the read of \<open>live_count\<close> and the write
  of the value read plus one. \<open>live_count++\<close> is outside the mutex, so that steps of other
  threads may come between its read and its write. (C leaves a program with such a race
  undefined; the model follows the machine.) A thread in \<open>pthread_cond_wait\<close> takes a
  step only when the wait returns although no thread has broadcast, which POSIX permits
  (a spurious wakeup): the wait returns 0 then, the loop around it ends, and the thread
  leaves \<open>Barrier\<close>. A thread that has returned or was not created, and a \<open>t\<close> that names
  no thread, leave the state as it is.

  The statements of a cell up to the test are one step. In a run without spurious
  wakeups this loses nothing: meanwhile the other threads write only cells of their own
  tiles in the next buffer, and the pointers are swapped only when all the other threads
  wait. After a spurious wakeup the steps of the machine are finer than those of the
  model.
\<close>

definition step :: "nat \<Rightarrow> state \<Rightarrow> state option" where
  "step t st = (
     if t < length (threads st) then
       (case pc (threads st ! t) of
          Top \<Rightarrow> Some (set_pc t (if curr_gen st < max_gens st then Tile 0 else Exited) st)
        | Tile k \<Rightarrow>
            if k < length (tile_cells (threads st ! t)) then do {
              st' \<leftarrow> Play_cell (tile_cells (threads st ! t) ! k) st;
              live \<leftarrow> written_live (tile_cells (threads st ! t) ! k) st';
              Some (set_pc t (if live then Load k else Tile (Suc k)) st') }
            else Barrier t st
        | Load k \<Rightarrow> Some (set_pc t (Store k (live_count st)) st)
        | Store k v \<Rightarrow> Some (set_pc t (Tile (Suc k)) (st\<lparr>live_count := v + 1\<rparr>))
        | Waiting \<Rightarrow> Some (set_pc t Woken st)
        | Woken \<Rightarrow> Some (set_pc t (if break_flag st = 1 then Exited else Top) st)
        | Exited \<Rightarrow> Some st
        | NotCreated \<Rightarrow> Some st)
     else Some st)"

text \<open>A run under a schedule: the list of the threads that take the steps.\<close>

definition run :: "nat list \<Rightarrow> state \<Rightarrow> state option" where
  "run sched st = for_each sched step st"

text \<open>
  The schedules under which every \<open>pthread_cond_wait\<close> returns by a broadcast: no thread
  takes a step while it is waiting.
\<close>

fun no_spurious_wakeup :: "nat list \<Rightarrow> state \<Rightarrow> bool" where
  "no_spurious_wakeup [] st = True"
| "no_spurious_wakeup (t # sched) st =
     (\<not> (t < length (threads st) \<and> pc (threads st ! t) = Waiting) \<and>
      (case step t st of None \<Rightarrow> True | Some st' \<Rightarrow> no_spurious_wakeup sched st'))"

section \<open>main\<close>

definition Usage :: "string \<Rightarrow> string" where
  "Usage prog_name =
     ''usage: '' @ prog_name @ '' <r> <s> <rows> <cols> <max> <i|g>'' @ [newline] @
     ''       r = number of rows of threads'' @ [newline] @
     ''       s = number of columns of threads'' @ [newline] @
     ''    rows = number of rows in the world'' @ [newline] @
     ''    cols = number of cols in the world'' @ [newline] @
     ''     max = max number of generations'' @ [newline] @
     ''       i = user will enter generation 0'' @ [newline] @
     ''       g = program should generate generation 0'' @ [newline]"

text \<open>
  \<open>Read_world\<close> and \<open>Gen_world\<close> store \<open>LIVE\<close> or \<open>DEAD\<close> in every cell of the world.
  What \<open>scanf\<close> reads for the cell \<open>(i, j)\<close> is \<open>inp i j\<close>; whether the random number
  drawn for it is at most the probability entered is \<open>coin i j\<close>. The result is the
  text printed and the world.
\<close>

definition Read_world ::
  "(int \<Rightarrow> int \<Rightarrow> char) \<Rightarrow> string \<Rightarrow> int list \<Rightarrow> int \<Rightarrow> int \<Rightarrow> (string \<times> int list) option" where
  "Read_world inp prompt wp m n = do {
     wp' \<leftarrow> for_each [0..m - 1] (\<lambda>i. for_each [0..n - 1] (\<lambda>j wp.
              if inp i j = LIVE_IO then store wp (i * n + j) LIVE
              else store wp (i * n + j) DEAD)) wp;
     Some (prompt @ [newline], wp') }"

definition Gen_world ::
  "(int \<Rightarrow> int \<Rightarrow> bool) \<Rightarrow> string \<Rightarrow> int list \<Rightarrow> int \<Rightarrow> int \<Rightarrow> (string \<times> int list) option" where
  "Gen_world coin prompt wp m n = do {
     wp' \<leftarrow> for_each [0..m - 1] (\<lambda>i. for_each [0..n - 1] (\<lambda>j wp.
              if coin i j then store wp (i * n + j) LIVE
              else store wp (i * n + j) DEAD)) wp;
     Some (prompt @ [newline], wp') }"

text \<open>
  How \<open>main\<close> ends: undefined behaviour, still in \<open>pthread_join\<close> when the schedule is
  used up, or terminated with an exit status, the text on \<open>stdout\<close> and the text on
  \<open>stderr\<close>.
\<close>

datatype outcome = Undefined | Joining | Terminated int string string

datatype start = Stopped outcome | Started state

text \<open>
  \<open>main\<close> up to the end of the loop of \<open>pthread_create\<close>. The library is a parameter:
  \<open>strtol\<close>; \<open>malloc k\<close>, whether the call \<open>k\<close> of \<open>malloc\<close> (0 for the thread handles, 1 and
  2 for the two blocks) returns a block, of the contents \<open>junk1\<close> and \<open>junk2\<close> for the two
  blocks; \<open>pthread_create t\<close>, whether the thread \<open>t\<close> is started. \<open>main\<close> tests none of
  the results. A block of no positive size has no cell; \<open>size_t\<close> is taken to be wider
  than \<open>int\<close>, so that the size of a block of \<open>m * n\<close> cells is computed exactly. The first
  \<open>pthread_create\<close> writes through the pointer to the handles. The thread \<open>t\<close> starts with
  the four assignments of \<open>Play_life\<close>; the quotients in them are the same for all \<open>t\<close>.
  A thread that is not started keeps the record of its rank and takes no step.
\<close>

definition launch :: "bool \<Rightarrow> thread \<Rightarrow> thread" where
  "launch created th = (if created then th else th\<lparr>pc := NotCreated\<rparr>)"

definition main_start ::
  "(string \<Rightarrow> int) \<Rightarrow> (nat \<Rightarrow> bool) \<Rightarrow> (nat \<Rightarrow> bool) \<Rightarrow> string list \<Rightarrow>
   (int \<Rightarrow> int \<Rightarrow> char) \<Rightarrow> (int \<Rightarrow> int \<Rightarrow> bool) \<Rightarrow> (nat \<Rightarrow> int) \<Rightarrow> (nat \<Rightarrow> int) \<Rightarrow> start" where
  "main_start strtol malloc pthread_create argv inp coin junk1 junk2 = (
     if length argv \<noteq> 7 then
       (case argv of [] \<Rightarrow> Stopped Undefined
        | prog_name # _ \<Rightarrow> Stopped (Terminated 0 [] (Usage prog_name)))
     else
       let r = int_of_long (strtol (argv ! 1)); s = int_of_long (strtol (argv ! 2));
           m = int_of_long (strtol (argv ! 3)); n = int_of_long (strtol (argv ! 4));
           mg = int_of_long (strtol (argv ! 5));
           ig = (case argv ! 6 of [] \<Rightarrow> CHR 0x00 | c # _ \<Rightarrow> c)
       in case c_int (r * s) of
            None \<Rightarrow> Stopped Undefined
          | Some tc \<Rightarrow>
              (case c_int (m * n) of
                 None \<Rightarrow> Stopped Undefined
               | Some cells \<Rightarrow>
                   let b1 = (if malloc 1 then map junk1 [0..<nat cells] else []);
                       b2 = (if malloc 2 then map junk2 [0..<nat cells] else [])
                   in case (if ig = CHR ''i'' then Read_world inp ''Enter generation 0'' b1 m n
                            else Gen_world coin ''What's the prob that a cell is alive?'' b1 m n) of
                        None \<Rightarrow> Stopped Undefined
                      | Some (out0, g0) \<Rightarrow>
                          (case Print_world ''Generation 0'' g0 m n of
                             None \<Rightarrow> Stopped Undefined
                           | Some out1 \<Rightarrow>
                               let st = \<lparr>thread_count = tc, g_r = r, g_s = s, g_m = m, g_n = n,
                                         g_wp = W1, g_twp = W2, max_gens = mg, barrier_count = 0,
                                         curr_gen = 0, live_count = 0, break_flag = 0,
                                         w1 = g0, w2 = b2, stdout = out0 @ [newline] @ out1,
                                         threads = []\<rparr>
                               in if 0 < tc \<and> \<not> malloc 0 then Stopped Undefined
                                  else case those (map (\<lambda>t. map_option (launch (pthread_create t))
                                                                         (Play_life_entry st (int t)))
                                                       [0..<nat tc]) of
                                         None \<Rightarrow> Stopped Undefined
                                       | Some ths \<Rightarrow> Started (st\<lparr>threads := ths\<rparr>))))"

text \<open>
  The loop of \<open>pthread_join\<close>, when the schedule is used up: it passes the threads that
  have returned, in their order; the handle of a thread that was not created was never
  written, and to join it is undefined. After the loop \<open>main\<close> frees the blocks and
  returns 0.
\<close>

fun join_threads :: "thread list \<Rightarrow> string \<Rightarrow> outcome" where
  "join_threads [] out = Terminated 0 out []"
| "join_threads (th # ths) out =
     (if pc th = Exited then join_threads ths out
      else if pc th = NotCreated then Undefined
      else Joining)"

text \<open>\<open>main\<close> as a whole, the threads running under the schedule \<open>sched\<close>.\<close>

definition main ::
  "(string \<Rightarrow> int) \<Rightarrow> (nat \<Rightarrow> bool) \<Rightarrow> (nat \<Rightarrow> bool) \<Rightarrow> string list \<Rightarrow>
   (int \<Rightarrow> int \<Rightarrow> char) \<Rightarrow> (int \<Rightarrow> int \<Rightarrow> bool) \<Rightarrow> (nat \<Rightarrow> int) \<Rightarrow> (nat \<Rightarrow> int) \<Rightarrow>
   nat list \<Rightarrow> outcome" where
  "main strtol malloc pthread_create argv inp coin junk1 junk2 sched = (
     case main_start strtol malloc pthread_create argv inp coin junk1 junk2 of
       Stopped out \<Rightarrow> out
     | Started st0 \<Rightarrow>
         (case run sched st0 of
            None \<Rightarrow> Undefined
          | Some st \<Rightarrow> join_threads (threads st) (stdout st)))"

text \<open>Decimal numerals, as \<open>strtol\<close> with base 10 reads them.\<close>

definition numeral_value :: "string \<Rightarrow> int" where
  "numeral_value str = foldl (\<lambda>a c. 10 * a + (of_char c - 48)) 0 str"

section \<open>The specification's notions\<close>

text \<open>The cell \<open>(a, b)\<close> of a world with \<open>n\<close> columns, stored by rows.\<close>

definition cell :: "int list \<Rightarrow> int \<Rightarrow> int \<times> int \<Rightarrow> int" where
  "cell wp n c = (case c of (a, b) \<Rightarrow> wp ! nat (a * n + b))"

text \<open>
  The eight neighbours of \<open>(i, j)\<close> on the torus of \<open>m\<close> rows and \<open>n\<close> columns, with the
  mathematical remainder, which is never negative for a positive modulus.
\<close>

definition nbhr_cells :: "int \<Rightarrow> int \<Rightarrow> int \<Rightarrow> int \<Rightarrow> (int \<times> int) list" where
  "nbhr_cells m n i j =
     map (\<lambda>(di, dj). ((i + di) mod m, (j + dj) mod n))
         [(-1, -1), (-1, 0), (-1, 1), (0, -1), (0, 1), (1, -1), (1, 0), (1, 1)]"

text \<open>
  The tile of the worker \<open>w\<close> in a grid of \<open>r\<close> by \<open>s\<close> threads, by the formula of the
  specification with the mathematical quotient and remainder.
\<close>

definition tile :: "int \<Rightarrow> int \<Rightarrow> int \<Rightarrow> int \<Rightarrow> int \<Rightarrow> thread" where
  "tile r s m n w =
     \<lparr>my_first_row = (w div s) * (m div r), my_last_row = (w div s) * (m div r) + m div r,
      my_first_col = (w mod s) * (n div s), my_last_col = (w mod s) * (n div s) + n div s,
      pc = Top\<rparr>"

text \<open>What \<open>Print_world\<close> prints for a world whose cells are all allocated.\<close>

definition render :: "string \<Rightarrow> int list \<Rightarrow> int \<Rightarrow> int \<Rightarrow> string" where
  "render title wp m n =
     concat (map (\<lambda>i. map (\<lambda>j. if cell wp n (i, j) = LIVE then LIVE_IO else DEAD_IO) [0..n - 1]
                       @ [newline]) [0..m - 1])
     @ title @ [newline, newline]"

text \<open>The rule of the game: the next state of the cell \<open>c\<close> of the world \<open>wp\<close>.\<close>

definition next_state :: "int list \<Rightarrow> int \<Rightarrow> int \<Rightarrow> int \<times> int \<Rightarrow> int" where
  "next_state wp m n c =
     (let count = sum_list (map (cell wp n) (nbhr_cells m n (fst c) (snd c)))
      in if count < 2 \<or> count > 3 then DEAD else if count = 2 then cell wp n c else LIVE)"

text \<open>
  What the steps of a run do when nothing is undefined: the store of the inner loop, and
  the two actions of the last thread to arrive at the barrier.
\<close>

definition write_cell :: "int \<times> int \<Rightarrow> state \<Rightarrow> state" where
  "write_cell c st =
     assign (g_twp st)
       ((deref st (g_twp st))[nat (fst c * g_n st + snd c) :=
           next_state (deref st (g_wp st)) (g_m st) (g_n st) c]) st"

definition leader_extinct :: "state \<Rightarrow> state" where
  "leader_extinct st = st\<lparr>break_flag := 1, barrier_count := 0, live_count := 0\<rparr>"

definition leader_swap :: "state \<Rightarrow> state" where
  "leader_swap st =
     st\<lparr>g_wp := g_twp st, g_twp := g_wp st, curr_gen := curr_gen st + 1,
        stdout := stdout st @ render (''Generation '' @ show_int (curr_gen st + 1))
                                     (deref st (g_twp st)) (g_m st) (g_n st),
        barrier_count := 0, live_count := 0\<rparr>"

text \<open>
  Well-formed states: a thread grid of positive shape, two different blocks of the size of
  the world, and every thread with the tile of its rank.
\<close>

definition wf :: "state \<Rightarrow> bool" where
  "wf st \<longleftrightarrow>
     0 < g_r st \<and> 0 < g_s st \<and> 0 \<le> g_m st \<and> 0 \<le> g_n st \<and>
     thread_count st = g_r st * g_s st \<and>
     length (w1 st) = nat (g_m st * g_n st) \<and> length (w2 st) = nat (g_m st * g_n st) \<and>
     g_wp st \<noteq> g_twp st \<and>
     length (threads st) = nat (thread_count st) \<and>
     (\<forall>t < length (threads st).
        (threads st ! t)\<lparr>pc := Top\<rparr> = tile (g_r st) (g_s st) (g_m st) (g_n st) (int t))"

section \<open>Invariants of the runs\<close>

text \<open>
  What no step changes, relative to the state \<open>st0\<close> in which the threads start: the
  configuration, which block is current in which generation, and the cells outside all tiles.
\<close>

definition frame_inv :: "state \<Rightarrow> state \<Rightarrow> bool" where
  "frame_inv st0 st \<longleftrightarrow>
     g_r st = g_r st0 \<and> g_s st = g_s st0 \<and> g_m st = g_m st0 \<and> g_n st = g_n st0 \<and>
     max_gens st = max_gens st0 \<and> thread_count st = thread_count st0 \<and>
     0 \<le> curr_gen st \<and>
     g_wp st = (if even (curr_gen st) then W1 else W2) \<and>
     g_twp st = (if even (curr_gen st) then W2 else W1) \<and>
     (\<forall>i j. 0 \<le> i \<and> i < g_m st0 \<and> 0 \<le> j \<and> j < g_n st0 \<and>
            list_all (\<lambda>th. (i, j) \<notin> set (tile_cells th)) (threads st0) \<longrightarrow>
            cell (w1 st) (g_n st0) (i, j) = cell (w1 st0) (g_n st0) (i, j) \<and>
            cell (w2 st) (g_n st0) (i, j) = cell (w2 st0) (g_n st0) (i, j))"

text \<open>
  The invariant of the end of a run, under every schedule. \<open>break_flag\<close> is 0 or 1 and is
  set only below the cap; the generation counter does not pass the cap; until the flag is
  set or the cap is reached no thread returns. Once the flag is set, the threads that may
  still arrive at the barrier, those at the test of the loop or in its body, are too few
  to complete it, and so are, once the cap is reached, those in the body of the loop: no
  thread is the last to arrive any more. The output ends with the current world under the
  title of the current generation.
\<close>

definition in_loop :: "pc \<Rightarrow> bool" where
  "in_loop p = (case p of Tile _ \<Rightarrow> True | Load _ \<Rightarrow> True | Store _ _ \<Rightarrow> True | _ \<Rightarrow> False)"

definition finish_inv :: "state \<Rightarrow> bool" where
  "finish_inv st \<longleftrightarrow>
     (break_flag st = 0 \<or> break_flag st = 1) \<and>
     (break_flag st = 1 \<longrightarrow> curr_gen st < max_gens st) \<and>
     0 \<le> curr_gen st \<and> (curr_gen st \<le> max_gens st \<or> curr_gen st = 0) \<and>
     (break_flag st = 1 \<longrightarrow>
        barrier_count st
          + int (length (filter (\<lambda>th. pc th = Top \<or> in_loop (pc th)) (threads st)))
        < thread_count st) \<and>
     (max_gens st \<le> curr_gen st \<longrightarrow>
        barrier_count st + int (length (filter (\<lambda>th. in_loop (pc th)) (threads st)))
        < thread_count st) \<and>
     (break_flag st = 0 \<and> curr_gen st < max_gens st \<longrightarrow>
        list_all (\<lambda>th. pc th \<noteq> Exited) (threads st)) \<and>
     (\<exists>pre. stdout st = pre @ render (''Generation '' @ show_int (curr_gen st))
                                      (deref st (g_wp st)) (g_m st) (g_n st))"

text \<open>
  The invariant of the barrier, under the schedules without spurious wakeup:
  \<open>barrier_count\<close> counts the waiting threads; once \<open>break_flag\<close> is set every thread is
  back from the barrier or has returned; until the cap is reached no thread returns.
\<close>

definition sync_inv :: "state \<Rightarrow> bool" where
  "sync_inv st \<longleftrightarrow>
     barrier_count st = int (length (filter (\<lambda>th. pc th = Waiting) (threads st))) \<and>
     (break_flag st = 0 \<or> break_flag st = 1) \<and>
     (break_flag st = 1 \<longrightarrow>
        curr_gen st < max_gens st \<and>
        list_all (\<lambda>th. pc th = Woken \<or> pc th = Exited \<or> pc th = NotCreated) (threads st)) \<and>
     (break_flag st = 0 \<and> max_gens st \<le> curr_gen st \<longrightarrow>
        list_all (\<lambda>th. pc th = Woken \<or> pc th = Top \<or> pc th = Exited \<or> pc th = NotCreated)
                 (threads st)) \<and>
     (break_flag st = 0 \<and> curr_gen st < max_gens st \<longrightarrow>
        list_all (\<lambda>th. pc th \<noteq> Exited) (threads st))"

text \<open>The number of live cells of a world.\<close>

definition live_cells :: "int list \<Rightarrow> nat" where
  "live_cells wp = length (filter (\<lambda>x. x = LIVE) wp)"

text \<open>
  The cells of its tile that a thread has written in the current round, and those of
  them for which it has completed \<open>live_count++\<close> where they are live.
\<close>

definition done_cells :: "thread \<Rightarrow> (int \<times> int) list" where
  "done_cells th = (case pc th of Tile k \<Rightarrow> take k (tile_cells th)
                    | Load k \<Rightarrow> take (Suc k) (tile_cells th)
                    | Store k v \<Rightarrow> take (Suc k) (tile_cells th)
                    | Waiting \<Rightarrow> tile_cells th | _ \<Rightarrow> [])"

definition counted_cells :: "thread \<Rightarrow> (int \<times> int) list" where
  "counted_cells th = (case pc th of Tile k \<Rightarrow> take k (tile_cells th)
                       | Load k \<Rightarrow> take k (tile_cells th)
                       | Store k v \<Rightarrow> take k (tile_cells th)
                       | Waiting \<Rightarrow> tile_cells th | _ \<Rightarrow> [])"

definition live_in :: "int list \<Rightarrow> int \<Rightarrow> (int \<times> int) list \<Rightarrow> int" where
  "live_in wp n cs = int (length (filter (\<lambda>c. cell wp n c = LIVE) cs))"

text \<open>
  The live cells for which \<open>live_count++\<close> has been completed in the round, and the
  invariant of \<open>live_count\<close>, under the schedules without spurious wakeup. Increments
  may be lost, but \<open>live_count\<close> is never negative, no more is a value read from it, and
  it is 0 exactly when no increment has been completed in the round. A thread in
  \<open>live_count++\<close> has written \<open>LIVE\<close>.
\<close>

definition counted :: "state \<Rightarrow> int" where
  "counted st = sum_list (map (\<lambda>th. live_in (deref st (g_twp st)) (g_n st) (counted_cells th))
                              (threads st))"

definition live_inv :: "state \<Rightarrow> bool" where
  "live_inv st \<longleftrightarrow>
     0 \<le> live_count st \<and>
     (live_count st = 0 \<longleftrightarrow> counted st = 0) \<and>
     (\<forall>t < length (threads st). \<forall>k.
        (pc (threads st ! t) = Load k \<or> (\<exists>v. pc (threads st ! t) = Store k v)) \<longrightarrow>
        k < length (tile_cells (threads st ! t)) \<and>
        cell (deref st (g_twp st)) (g_n st) (tile_cells (threads st ! t) ! k) = LIVE) \<and>
     (\<forall>t < length (threads st). \<forall>k v. pc (threads st ! t) = Store k v \<longrightarrow> 0 \<le> v)"

text \<open>
  The generations as a function of the start: a cell is covered when it lies in the tile
  of some worker; a round gives the covered cells their next state and leaves the others
  as the next buffer has them; the population is extinct when no covered cell is alive
  after the round.
\<close>

definition covered :: "int \<Rightarrow> int \<Rightarrow> int \<Rightarrow> int \<Rightarrow> int \<times> int \<Rightarrow> bool" where
  "covered r s m n c = list_ex (\<lambda>w. c \<in> set (tile_cells (tile r s m n (int w)))) [0..<nat (r * s)]"

definition cell_of :: "int \<Rightarrow> nat \<Rightarrow> int \<times> int" where
  "cell_of n k = (int k div n, int k mod n)"

definition tiles_round :: "int \<Rightarrow> int \<Rightarrow> int \<Rightarrow> int \<Rightarrow> int list \<Rightarrow> int list \<Rightarrow> int list" where
  "tiles_round r s m n cur nxt =
     map (\<lambda>k. if covered r s m n (cell_of n k) then next_state cur m n (cell_of n k) else nxt ! k)
         [0..<length nxt]"

definition extinct :: "int \<Rightarrow> int \<Rightarrow> int \<Rightarrow> int \<Rightarrow> int list \<Rightarrow> bool" where
  "extinct r s m n cur =
     list_all (\<lambda>w. list_all (\<lambda>c. next_state cur m n c \<noteq> LIVE) (tile_cells (tile r s m n (int w))))
              [0..<nat (r * s)]"

text \<open>
  The current world, the next buffer and the output at the generation \<open>k\<close>, whatever the
  population: the runs follow this sequence up to the cap or to extinction.
\<close>

fun gens :: "int \<Rightarrow> int \<Rightarrow> int \<Rightarrow> int \<Rightarrow> int list \<times> int list \<times> string \<Rightarrow> nat \<Rightarrow>
             int list \<times> int list \<times> string" where
  "gens r s m n init 0 = init"
| "gens r s m n init (Suc k) =
     (case gens r s m n init k of (cur, nxt, out) \<Rightarrow>
        (tiles_round r s m n cur nxt, cur,
         out @ render (''Generation '' @ show_int (int (Suc k))) (tiles_round r s m n cur nxt) m n))"

definition generation :: "state \<Rightarrow> nat \<Rightarrow> int list \<times> int list \<times> string" where
  "generation st0 k =
     gens (g_r st0) (g_s st0) (g_m st0) (g_n st0) (w1 st0, w2 st0, stdout st0) k"

text \<open>
  The invariant of the generations, under the schedules without spurious wakeup: the
  current world and the output are those of the sequence at \<open>curr_gen\<close>, the next buffer
  holds the next state in the cells done and its old contents elsewhere, and no earlier
  generation was extinct or beyond the cap.
\<close>

definition gen_inv :: "state \<Rightarrow> state \<Rightarrow> bool" where
  "gen_inv st0 st \<longleftrightarrow>
     deref st (g_wp st) = fst (generation st0 (nat (curr_gen st))) \<and>
     stdout st = snd (snd (generation st0 (nat (curr_gen st)))) \<and>
     (break_flag st = 0 \<longrightarrow>
        (\<forall>k < length (fst (snd (generation st0 (nat (curr_gen st))))).
           deref st (g_twp st) ! k =
             (if cell_of (g_n st0) k \<in> set (concat (map done_cells (threads st)))
              then next_state (fst (generation st0 (nat (curr_gen st)))) (g_m st0) (g_n st0)
                              (cell_of (g_n st0) k)
              else fst (snd (generation st0 (nat (curr_gen st)))) ! k))) \<and>
     (break_flag st = 1 \<longrightarrow>
        extinct (g_r st0) (g_s st0) (g_m st0) (g_n st0) (fst (generation st0 (nat (curr_gen st))))) \<and>
     (\<forall>j < nat (curr_gen st).
        \<not> extinct (g_r st0) (g_s st0) (g_m st0) (g_n st0) (fst (generation st0 j))
        \<and> int j < max_gens st0)"

definition all_inv :: "state \<Rightarrow> state \<Rightarrow> bool" where
  "all_inv st0 st \<longleftrightarrow> sync_inv st \<and> live_inv st \<and> frame_inv st0 st \<and> gen_inv st0 st"

section \<open>Examples\<close>

text \<open>Inputs, schedules and states of the examples.\<close>

definition started :: "start \<Rightarrow> state option" where
  "started x = (case x of Started st \<Rightarrow> Some st | Stopped _ \<Rightarrow> None)"

definition succeeds :: "nat \<Rightarrow> bool" where
  "succeeds k = True"

definition all_X :: "int \<Rightarrow> int \<Rightarrow> char" where
  "all_X i j = CHR ''X''"

definition top_row :: "int \<Rightarrow> int \<Rightarrow> bool" where
  "top_row i j = (i = 0)"

definition zeros :: "nat \<Rightarrow> int" where
  "zeros k = 0"

definition example :: "string list \<Rightarrow> (int \<Rightarrow> int \<Rightarrow> bool) \<Rightarrow> state" where
  "example argv coin =
     the (started (main_start numeral_value succeeds succeeds argv all_X coin zeros zeros))"

definition shape_1x3 :: state where
  "shape_1x3 = example [''life'', ''1'', ''3'', ''3'', ''3'', ''2'', ''g''] top_row"

definition shape_1x1 :: state where
  "shape_1x1 = example [''life'', ''1'', ''1'', ''3'', ''3'', ''2'', ''g''] top_row"

definition world_2x2 :: "string list" where
  "world_2x2 = [''life'', ''1'', ''1'', ''2'', ''2'', ''5'', ''g'']"

definition no_threads :: "string list" where
  "no_threads = [''life'', ''0'', ''0'', ''0'', ''0'', ''5'', ''g'']"

definition block :: "int \<Rightarrow> int \<Rightarrow> bool" where
  "block i j = (i < 2 \<and> j < 2)"

definition shape_2x1_block :: state where
  "shape_2x1_block = example [''life'', ''2'', ''1'', ''3'', ''3'', ''5'', ''g''] block"

definition exit_status :: "outcome \<Rightarrow> int option" where
  "exit_status out = (case out of Terminated status _ _ \<Rightarrow> Some status | _ \<Rightarrow> None)"

definition cap_1 :: "string list" where
  "cap_1 = [''life'', ''1'', ''1'', ''3'', ''3'', ''1'', ''g'']"

definition cap_2 :: "string list" where
  "cap_2 = [''life'', ''1'', ''1'', ''3'', ''3'', ''2'', ''g'']"

definition shape_3x1_cap_1 :: "string list" where
  "shape_3x1_cap_1 = [''life'', ''3'', ''1'', ''3'', ''3'', ''1'', ''g'']"

definition shape_2x1_cap_1 :: "string list" where
  "shape_2x1_cap_1 = [''life'', ''2'', ''1'', ''3'', ''3'', ''1'', ''g'']"

definition two_rounds :: "nat list" where
  "two_rounds = replicate 9 0 @ replicate 9 1 @ replicate 10 0 @ replicate 10 1"

definition three_threads_one_round :: "nat list" where
  "three_threads_one_round =
     replicate 11 0 @ replicate 11 1 @ replicate 11 2 @ [0, 0, 1, 1, 2, 2]"

definition two_threads_one_round :: "nat list" where
  "two_threads_one_round = replicate 11 0 @ replicate 11 1 @ [0, 0, 1, 1]"

text \<open>A world entered by the user: \<open>inp\<close> is what the program reads for each cell.\<close>

definition entered :: "string list \<Rightarrow> (int \<Rightarrow> int \<Rightarrow> char) \<Rightarrow> state" where
  "entered argv inp =
     the (started (main_start numeral_value succeeds succeeds argv inp top_row zeros zeros))"

definition still_life_argv :: "string list" where
  "still_life_argv = [''life'', ''2'', ''1'', ''4'', ''3'', ''3'', ''i'']"

definition lower_block :: "int \<Rightarrow> int \<Rightarrow> char" where
  "lower_block i j = (if 2 \<le> i \<and> j < 2 then CHR ''X'' else CHR '' '')"

definition middle_block :: "int \<Rightarrow> int \<Rightarrow> char" where
  "middle_block i j = (if (i = 1 \<or> i = 2) \<and> j < 2 then CHR ''X'' else CHR '' '')"

definition still_life :: state where
  "still_life = entered still_life_argv lower_block"

definition two_tiles :: state where
  "two_tiles = entered still_life_argv middle_block"

text \<open>
  The thread 0 alone: its tile, the barrier, a spurious return of the wait (the ninth
  step), its tile again and the barrier. Then the thread 0 once and the thread 1 through
  its tile into the barrier.
\<close>

definition early_rendezvous :: "nat list" where
  "early_rendezvous = replicate 18 0"

definition after_the_flag :: "nat list" where
  "after_the_flag = 0 # replicate 16 1"

text \<open>
  Both threads up to the read of \<open>live_count\<close> for their first live cell, the two reads,
  the two writes, and each thread to the end of its tile.
\<close>

definition lost_update :: "nat list" where
  "lost_update = replicate 5 0 @ [1, 1] @ [0, 1, 0, 1] @ replicate 5 0 @ replicate 7 1"

section \<open>Arithmetic\<close>

lemma c_mod_nonneg: "0 \<le> a \<Longrightarrow> 0 < b \<Longrightarrow> c_mod a b = Some (a mod b)"
  by (cases "a = 0") (auto simp: c_mod_def minus_mult_div_eq_mod)

lemma c_div_nonneg: "0 \<le> a \<Longrightarrow> 0 < b \<Longrightarrow> c_div a b = Some (a div b)"
  by (cases "a = 0") (auto simp: c_div_def)

lemma band_div:
  assumes "q * h \<le> i" "i < q * h + h"
  shows "0 < h \<and> i div h = (q::int)"
proof -
  have h: "0 < h" using assms by linarith
  have "i = h * q + (i - q * h)" by (simp add: algebra_simps)
  moreover have "0 \<le> i - q * h" "i - q * h < h" using assms by auto
  ultimately have "i div h = q" using h
    by (metis div_pos_pos_trivial add.commute add_cancel_left_left div_mult_self2 less_irrefl)
  with h show ?thesis by simp
qed

lemma int_div_less_iff:
  assumes "0 < b" shows "a div b < c \<longleftrightarrow> a < c * (b::int)"
proof -
  define q d where "q = a div b" and "d = a mod b"
  have a: "a = b * q + d" by (simp add: q_def d_def)
  have d: "0 \<le> d" "d < b" using assms by (simp_all add: d_def)
  have "q < c \<longleftrightarrow> a < c * b"
  proof
    assume "q < c"
    then have "q + 1 \<le> c" by simp
    then have "b * (q + 1) \<le> b * c" using assms by (intro mult_left_mono) auto
    then have "b * q + b \<le> b * c" by (simp add: algebra_simps)
    then show "a < c * b" using a d by (simp add: mult.commute)
  next
    assume lt: "a < c * b"
    show "q < c"
    proof (rule ccontr)
      assume "\<not> q < c"
      then have "c \<le> q" by simp
      then have "b * c \<le> b * q" using assms by (intro mult_left_mono) auto
      then have "b * c \<le> a" using a d by linarith
      with lt show False by (simp add: mult.commute)
    qed
  qed
  then show ?thesis by (simp add: q_def)
qed

lemma rank_div_less: 
  assumes "0 < s" "0 \<le> w" "w < r * s" shows "w div s < (r::int)"
  using assms by (simp add: int_div_less_iff) 

lemma upto3: "[i - 1..i + 1] = [i - 1, i, i + 1::int]"
  by (simp add: upto_rec1)

lemma cell_index: 
  assumes "0 \<le> a" "a < m" "0 \<le> b" "b < n"
  shows "0 \<le> a * n + b" "a * n + b < m * (n::int)"
proof -
  show "0 \<le> a * n + b" using assms by simp
  have "(a + 1) * n \<le> m * n" using assms by (intro mult_right_mono) auto
  then show "a * n + b < m * n" using assms by (simp add: algebra_simps)
qed

lemma load_cell:
  assumes "0 \<le> a" "a < m" "0 \<le> b" "b < n" "length wp = nat (m * n)"
  shows "load wp (a * n + b) = Some (cell wp n (a, b))"
  using cell_index [OF assms(1-4)] assms(5) by (simp add: load_def cell_def)

lemma load_wrapped:
  assumes "0 < m" "0 < n" "length wp = nat (m * n)"
  shows "load wp ((x mod m) * n + y mod n) = Some (cell wp n (x mod m, y mod n))"
  using assms by (intro load_cell [where m = m]) simp_all

lemma wrap_pred: "0 \<le> i \<Longrightarrow> i < m \<Longrightarrow> (i - 1) mod m = (if i = 0 then m - 1 else i - (1::int))"
  by (auto simp: mod_pos_pos_trivial zmod_minus1)

lemma wrap_succ: "0 \<le> i \<Longrightarrow> i < m \<Longrightarrow> (i + 1) mod m = (if i = m - 1 then 0 else i + (1::int))"
  by (auto simp: mod_pos_pos_trivial)

lemma sum_list_01:
  "\<forall>x\<in>set xs. f x = (1::int) \<or> f x = 0 \<Longrightarrow>
   sum_list (map f xs) = int (length (filter (\<lambda>x. f x = 1) xs))"
  by (induction xs) auto

lemma cell_in_set:
  assumes "0 \<le> a" "a < m" "0 \<le> b" "b < n" "length wp = nat (m * n)"
  shows "cell wp n (a, b) \<in> set wp"
  using cell_index [OF assms(1-4)] assms(5) by (simp add: cell_def)

section \<open>Count_nbhrs counts the neighbours\<close>

lemma inner_step:
  assumes "0 < m" "0 < n" "length wp = nat (m * n)" "0 \<le> i1 + m" "0 \<le> j1 + n"
  shows "(do { i2 \<leftarrow> c_mod (i1 + m) m; j2 \<leftarrow> c_mod (j1 + n) n;
               v \<leftarrow> load wp (i2 * n + j2); Some (count + v) })
         = Some (count + cell wp n (i1 mod m, j1 mod n))"
  using assms load_wrapped [OF assms(1-3), of i1 j1] by (simp add: c_mod_nonneg)

lemma Count_nbhrs_sum:
  assumes "0 < m" "0 < n" "0 \<le> i" "i < m" "0 \<le> j" "j < n" "length wp = nat (m * n)"
  shows "Count_nbhrs wp m n i j = Some (sum_list (map (cell wp n) (nbhr_cells m n i j)))"
proof -
  have a: "0 \<le> i - 1 + m" "0 \<le> i + m" "0 \<le> i + 1 + m" "0 \<le> j - 1 + n" "0 \<le> j + n" "0 \<le> j + 1 + n"
    using assms by auto
  have c: "load wp (i * n + j) = Some (cell wp n (i, j))"
    using assms by (intro load_cell [where m = m])
  have ij: "i mod m = i" "j mod n = j" using assms by auto
  show ?thesis
    unfolding Count_nbhrs_def upto3 
    using a ij by (simp add: inner_step [OF assms(1,2,7)] c nbhr_cells_def)
qed

lemma nbhr_cells_in_grid:
  assumes "0 < m" "0 < n" "c \<in> set (nbhr_cells m n i j)"
  shows "0 \<le> fst c \<and> fst c < m \<and> 0 \<le> snd c \<and> snd c < n"
  using assms by (auto simp: nbhr_cells_def)

lemma nbhr_cells_distinct:
  assumes "3 \<le> m" "3 \<le> n" "0 \<le> i" "i < m" "0 \<le> j" "j < n"
  shows "distinct (nbhr_cells m n i j) \<and> (i, j) \<notin> set (nbhr_cells m n i j)"
  using assms by (simp add: nbhr_cells_def wrap_pred wrap_succ)

text \<open>
  Claim C2. In a world of at least three rows and three columns whose cells are \<open>LIVE\<close>
  or \<open>DEAD\<close>, \<open>Count_nbhrs\<close> returns, for every cell \<open>(i, j)\<close> of the world, the number of
  live cells among the eight neighbours of \<open>(i, j)\<close> on the torus. These are eight
  different cells and \<open>(i, j)\<close> is none of them, so each neighbour is counted once and the
  cell itself is not counted.
\<close>

theorem Count_nbhrs_counts_neighbours:
  assumes "3 \<le> m" "3 \<le> n" "0 \<le> i" "i < m" "0 \<le> j" "j < n"
    and "length wp = nat (m * n)" and "\<forall>x\<in>set wp. x = LIVE \<or> x = DEAD"
  shows "Count_nbhrs wp m n i j =
           Some (int (length (filter (\<lambda>c. cell wp n c = LIVE) (nbhr_cells m n i j))))
         \<and> length (nbhr_cells m n i j) = 8
         \<and> distinct (nbhr_cells m n i j)
         \<and> (i, j) \<notin> set (nbhr_cells m n i j)"
proof -
  have pos: "0 < m" "0 < n" using assms by auto
  have "\<forall>c\<in>set (nbhr_cells m n i j). cell wp n c = 1 \<or> cell wp n c = 0"
  proof
    fix c assume "c \<in> set (nbhr_cells m n i j)"
    then have "cell wp n (fst c, snd c) \<in> set wp"
      using nbhr_cells_in_grid [OF pos] assms(7) by (intro cell_in_set [where m = m]) auto
    then show "cell wp n c = 1 \<or> cell wp n c = 0" using assms(8) by auto
  qed
  then have "sum_list (map (cell wp n) (nbhr_cells m n i j))
             = int (length (filter (\<lambda>c. cell wp n c = 1) (nbhr_cells m n i j)))"
    by (rule sum_list_01)
  moreover have "length (nbhr_cells m n i j) = 8" by (simp add: nbhr_cells_def)
  ultimately show ?thesis
    using Count_nbhrs_sum [OF pos assms(3-7)] nbhr_cells_distinct [OF assms(1-6)] by simp
qed

theorem Count_nbhrs_counts_neighbours_witness:
  "Count_nbhrs [1, 1, 1, 1, 1, 1, 1, 1, 1] 3 3 0 0 = Some 8
   \<and> distinct (nbhr_cells 3 3 0 0) \<and> (0, 0) \<notin> set (nbhr_cells 3 3 0 0)"
  using Count_nbhrs_counts_neighbours [of 3 3 0 0 "[1, 1, 1, 1, 1, 1, 1, 1, 1]"]
  by (simp add: nbhr_cells_def cell_def)

section \<open>Tiles\<close>

lemma Play_life_entry_tile:
  assumes "0 < g_r st" "0 < g_s st" "0 \<le> g_m st" "0 \<le> g_n st" "0 \<le> w"
  shows "Play_life_entry st w = Some (tile (g_r st) (g_s st) (g_m st) (g_n st) w)"
  using assms by (simp add: Play_life_entry_def c_div_nonneg c_mod_nonneg tile_def)

lemma set_tile_cells:
  "set (tile_cells th) = {(i, j). my_first_row th \<le> i \<and> i < my_last_row th \<and>
                                  my_first_col th \<le> j \<and> j < my_last_col th}"
  by (auto simp: tile_cells_def)

lemma distinct_tile_cells: "distinct (tile_cells th)"
proof -
  have "tile_cells th = List.product [my_first_row th..my_last_row th - 1]
                                     [my_first_col th..my_last_col th - 1]"
    by (simp add: tile_cells_def product_concat_map)
  then show ?thesis by (simp add: distinct_product)
qed

lemma in_tile_iff:
  assumes "0 < r" "0 < s" "0 \<le> w" "w < r * s"
  shows "(i, j) \<in> set (tile_cells (tile r s m n w)) \<longleftrightarrow>
         0 < m div r \<and> 0 < n div s \<and> i div (m div r) = w div s \<and> j div (n div s) = w mod s"
proof -
  have a: "q * h \<le> x \<and> x < q * h + h \<longleftrightarrow> 0 < h \<and> x div h = q" for q h x :: int
  proof
    assume "q * h \<le> x \<and> x < q * h + h"
    then show "0 < h \<and> x div h = q" using band_div by blast
  next
    assume b: "0 < h \<and> x div h = q"
    then have "x = h * q + x mod h" by (metis mult_div_mod_eq)
    moreover have "0 \<le> x mod h" "x mod h < h" using b by auto
    ultimately show "q * h \<le> x \<and> x < q * h + h" by (simp add: algebra_simps)
  qed
  show ?thesis
    using a [of "w div s" "m div r" i] a [of "w mod s" "n div s" j]
    by (auto simp: set_tile_cells tile_def)
qed

lemma tiles_disjoint:
  assumes "0 < r" "0 < s" "0 \<le> w" "w < r * s" "0 \<le> w'" "w' < r * s"
    and "c \<in> set (tile_cells (tile r s m n w))" "c \<in> set (tile_cells (tile r s m n w'))"
  shows "w = w'"
proof -
  obtain i j where c: "c = (i, j)" by (cases c)
  have "w div s = w' div s" "w mod s = w' mod s"
    using assms(7,8) unfolding c in_tile_iff [OF assms(1-4)] in_tile_iff [OF assms(1,2,5,6)]
    by auto
  then show ?thesis by (metis mult_div_mod_eq)
qed

lemma tile_in_grid:
  assumes "0 < r" "0 < s" "0 \<le> m" "0 \<le> n" "0 \<le> w" "w < r * s"
    and "(i, j) \<in> set (tile_cells (tile r s m n w))"
  shows "0 \<le> i \<and> i < m \<and> 0 \<le> j \<and> j < n"
proof -
  define h k where "h = m div r" and "k = n div s"
  have hk: "0 < h" "0 < k" "i div h = w div s" "j div k = w mod s"
    using assms(7) unfolding in_tile_iff [OF assms(1,2,5,6)] h_def k_def by auto
  have q: "0 \<le> w div s" "w div s < r" "0 \<le> w mod s" "w mod s < s"
    using assms rank_div_less [OF assms(2,5,6)] by (auto simp: pos_imp_zdiv_nonneg_iff)
  have "i div h < r" "j div k < s" using hk q by auto
  then have "i < r * h" "j < s * k"
    by (simp_all only: int_div_less_iff [OF hk(1)] int_div_less_iff [OF hk(2)])
  moreover have "r * h + m mod r = m" "s * k + n mod s = n" "0 \<le> m mod r" "0 \<le> n mod s"
    using assms unfolding h_def k_def by simp_all
  then have "r * h \<le> m" "s * k \<le> n" by linarith+
  moreover have "0 \<le> i div h" "0 \<le> j div k" using hk q by auto
  then have "0 \<le> i" "0 \<le> j"
    by (simp_all only: pos_imp_zdiv_nonneg_iff [OF hk(1)] pos_imp_zdiv_nonneg_iff [OF hk(2)])
  ultimately show ?thesis by auto
qed

lemma tiles_cover:
  assumes "0 < r" "0 < s" "r dvd m" "s dvd n" "0 \<le> i" "i < m" "0 \<le> j" "j < n"
  shows "\<exists>w. 0 \<le> w \<and> w < r * s \<and> (i, j) \<in> set (tile_cells (tile r s m n w))"
proof -
  define h k where "h = m div r" and "k = n div s"
  have m: "m = r * h" "n = s * k" using assms by (auto simp: h_def k_def)
  have hk: "0 < h" "0 < k" using assms m 
    by (metis less_le_trans mult_less_0_iff not_less zero_less_mult_pos)+
  define w where "w = (i div h) * s + j div k"
  have q: "0 \<le> i div h" "i div h < r" "0 \<le> j div k" "j div k < s"
    using assms hk m by (auto simp: pos_imp_zdiv_nonneg_iff int_div_less_iff mult.commute)
  have w: "w div s = i div h" "w mod s = j div k"
    using q assms by (auto simp: w_def)
  have "0 \<le> w" using q assms by (simp add: w_def)
  moreover have "w < r * s"
  proof -
    have "w < (i div h + 1) * s" using q by (simp add: w_def algebra_simps)
    also have "\<dots> \<le> r * s" using q assms by (intro mult_right_mono) auto
    finally show ?thesis .
  qed
  ultimately show ?thesis
    using in_tile_iff [OF assms(1,2), of w i j m n] w hk unfolding h_def k_def by auto
qed

section \<open>Loops that cannot fail\<close>

lemma for_each_emit:
  "(\<And>x out. x \<in> set xs \<Longrightarrow> body x out = Some (out @ g x)) \<Longrightarrow>
   for_each xs body out = Some (out @ concat (map g xs))"
  by (induction xs arbitrary: out) simp_all

lemma for_each_invariant:
  assumes "P st" and "\<And>x st. x \<in> set xs \<Longrightarrow> P st \<Longrightarrow> \<exists>st'. body x st = Some st' \<and> P st'"
  shows "\<exists>st'. for_each xs body st = Some st' \<and> P st'"
  using assms
proof (induction xs arbitrary: st)
  case Nil
  then show ?case by simp
next
  case (Cons x xs)
  obtain st1 where 1: "body x st = Some st1" "P st1" using Cons.prems by fastforce
  have "\<exists>st'. for_each xs body st1 = Some st' \<and> P st'"
    using Cons.prems(2) by (intro Cons.IH [OF 1(2)]) simp
  then show ?case using 1 by simp
qed

lemma Print_world_render:
  assumes "length wp = nat (m * n)"
  shows "Print_world title wp m n = Some (render title wp m n)"
proof -
  have row: "for_each [0..n - 1] (\<lambda>j out. do {
                 v \<leftarrow> load wp (i * n + j);
                 Some (out @ [if v = LIVE then LIVE_IO else DEAD_IO]) }) out
             = Some (out @ concat (map (\<lambda>j. [if cell wp n (i, j) = LIVE then LIVE_IO else DEAD_IO])
                                       [0..n - 1]))"
    if "i \<in> set [0..m - 1]" for i out
  proof (rule for_each_emit)
    fix j out assume "j \<in> set [0..n - 1]"
    then have "load wp (i * n + j) = Some (cell wp n (i, j))"
      using that assms by (intro load_cell [where m = m]) auto
    then show "(do { v \<leftarrow> load wp (i * n + j);
                     Some (out @ [if v = LIVE then LIVE_IO else DEAD_IO]) })
               = Some (out @ [if cell wp n (i, j) = LIVE then LIVE_IO else DEAD_IO])"
      by simp
  qed
  have flat: "concat (map (\<lambda>j. [f j]) js) = map f js" for f :: "int \<Rightarrow> char" and js
    by (induction js) simp_all
  have "for_each [0..m - 1] (\<lambda>i out. do {
              out' \<leftarrow> for_each [0..n - 1] (\<lambda>j out. do {
                        v \<leftarrow> load wp (i * n + j);
                        Some (out @ [if v = LIVE then LIVE_IO else DEAD_IO]) }) out;
              Some (out' @ [newline]) }) []
        = Some ([] @ concat (map (\<lambda>i. map (\<lambda>j. if cell wp n (i, j) = LIVE then LIVE_IO else DEAD_IO)
                                      [0..n - 1] @ [newline]) [0..m - 1]))"
    by (rule for_each_emit) (simp add: row flat)
  then show ?thesis by (simp add: Print_world_def render_def)
qed

lemma store_length: "store a k v = Some a' \<Longrightarrow> length a' = length a"
  by (auto simp: store_def split: if_splits)

lemma fill_world_defined:
  assumes "length wp = nat (m * n)"
  shows "\<exists>wp'. for_each [0..m - 1] (\<lambda>i. for_each [0..n - 1] (\<lambda>j wp. store wp (i * n + j) (f i j))) wp
                 = Some wp' \<and> length wp' = nat (m * n)"
proof (rule for_each_invariant [where P = "\<lambda>a. length a = nat (m * n)"])
  show "length wp = nat (m * n)" by fact
next
  fix i and a :: "int list"
  assume i: "i \<in> set [0..m - 1]" and a: "length a = nat (m * n)"
  show "\<exists>a'. for_each [0..n - 1] (\<lambda>j wp. store wp (i * n + j) (f i j)) a = Some a' \<and>
              length a' = nat (m * n)"
  proof (rule for_each_invariant [where P = "\<lambda>a. length a = nat (m * n)"])
    show "length a = nat (m * n)" by fact
  next
    fix j and b :: "int list"
    assume j: "j \<in> set [0..n - 1]" and b: "length b = nat (m * n)"
    have "0 \<le> i * n + j" "i * n + j < m * n"
      using i j by (auto intro: cell_index)
    then show "\<exists>b'. store b (i * n + j) (f i j) = Some b' \<and> length b' = nat (m * n)"
      using b by (simp add: store_def)
  qed
qed

lemma Read_world_defined:
  assumes "length wp = nat (m * n)"
  shows "\<exists>wp'. Read_world inp prompt wp m n = Some (prompt @ [newline], wp') \<and>
               length wp' = nat (m * n)"
proof -
  have eq: "(\<lambda>i. for_each [0..n - 1] (\<lambda>j wp.
              if inp i j = LIVE_IO then store wp (i * n + j) LIVE
              else store wp (i * n + j) DEAD))
        = (\<lambda>i. for_each [0..n - 1] (\<lambda>j wp. store wp (i * n + j) (if inp i j = LIVE_IO then LIVE else DEAD)))"
    by (intro ext arg_cong2 [where f = "\<lambda>a b. for_each a b"]) auto
  show ?thesis
    using fill_world_defined [OF assms, of "\<lambda>i j. if inp i j = LIVE_IO then LIVE else DEAD"]
    unfolding Read_world_def eq by auto
qed

lemma Gen_world_defined:
  assumes "length wp = nat (m * n)"
  shows "\<exists>wp'. Gen_world coin prompt wp m n = Some (prompt @ [newline], wp') \<and>
               length wp' = nat (m * n)"
proof -
  have eq: "(\<lambda>i. for_each [0..n - 1] (\<lambda>j wp.
              if coin i j then store wp (i * n + j) LIVE
              else store wp (i * n + j) DEAD))
        = (\<lambda>i. for_each [0..n - 1] (\<lambda>j wp. store wp (i * n + j) (if coin i j then LIVE else DEAD)))"
    by (intro ext arg_cong2 [where f = "\<lambda>a b. for_each a b"]) auto
  show ?thesis
    using fill_world_defined [OF assms, of "\<lambda>i j. if coin i j then LIVE else DEAD"]
    unfolding Gen_world_def eq by auto
qed

lemma those_Some_nth:
  "those xs = Some ys \<Longrightarrow> length ys = length xs \<and> (\<forall>i < length xs. xs ! i = Some (ys ! i))"
proof (induction xs arbitrary: ys)
  case Nil
  then show ?case by simp
next
  case (Cons x xs)
  then obtain y ys' where y: "x = Some y" "those xs = Some ys'" "ys = y # ys'"
    by (auto split: option.splits)
  then show ?case using Cons.IH [OF y(2)] by (auto simp: nth_Cons split: nat.split)
qed

lemma for_each_store_length:
  assumes "for_each xs (\<lambda>x a. store a (idx x) (val x)) a = Some a'"
  shows "length a' = length a"
  using assms
proof (induction xs arbitrary: a)
  case Nil
  then show ?case by simp
next
  case (Cons x xs)
  then obtain a1 where 1: "store a (idx x) (val x) = Some a1" "for_each xs (\<lambda>x a. store a (idx x) (val x)) a1 = Some a'"
    by (auto split: option.splits)
  then show ?case using Cons.IH [OF 1(2)] store_length [OF 1(1)] by simp
qed

lemma fill_world_length:
  assumes "for_each is (\<lambda>i. for_each js (\<lambda>j wp. store wp (i * n + j) (f i j))) wp = Some wp'"
  shows "length wp' = length wp"
  using assms
proof (induction "is" arbitrary: wp)
  case Nil
  then show ?case by simp
next
  case (Cons i "is")
  then obtain a1 where 1: "for_each js (\<lambda>j wp. store wp (i * n + j) (f i j)) wp = Some a1"
    "for_each is (\<lambda>i. for_each js (\<lambda>j wp. store wp (i * n + j) (f i j))) a1 = Some wp'"
    by (auto split: option.splits)
  have "length a1 = length wp"
    using 1(1) by (rule for_each_store_length [where idx = "\<lambda>j. i * n + j" and val = "f i"])
  then show ?case using Cons.IH [OF 1(2)] by simp
qed

lemma fill_world_null:
  assumes "0 < m" "0 < n"
  shows "for_each [0..m - 1] (\<lambda>i. for_each [0..n - 1] (\<lambda>j wp. store wp (i * n + j) (f i j))) [] = None"
proof -
  have "[0..m - 1] = 0 # [1..m - 1]" "[0..n - 1] = 0 # [1..n - 1]"
    using assms by (simp_all add: upto_rec1)
  then show ?thesis by (simp add: store_def)
qed

lemma bind_Some_map: "(x \<bind> (\<lambda>y. Some (f y))) = map_option f x"
  by (cases x) simp_all

lemma Read_world_fill:
  "Read_world inp prompt wp m n =
     map_option (Pair (prompt @ [newline]))
       (for_each [0..m - 1] (\<lambda>i. for_each [0..n - 1] (\<lambda>j wp.
           store wp (i * n + j) (if inp i j = LIVE_IO then LIVE else DEAD))) wp)"
proof -
  have eq: "(\<lambda>i. for_each [0..n - 1] (\<lambda>j wp.
              if inp i j = LIVE_IO then store wp (i * n + j) LIVE
              else store wp (i * n + j) DEAD))
        = (\<lambda>i. for_each [0..n - 1] (\<lambda>j wp. store wp (i * n + j) (if inp i j = LIVE_IO then LIVE else DEAD)))"
    by (intro ext arg_cong2 [where f = "\<lambda>a b. for_each a b"]) auto
  show ?thesis unfolding Read_world_def eq by (rule bind_Some_map)
qed

lemma Gen_world_fill:
  "Gen_world coin prompt wp m n =
     map_option (Pair (prompt @ [newline]))
       (for_each [0..m - 1] (\<lambda>i. for_each [0..n - 1] (\<lambda>j wp.
           store wp (i * n + j) (if coin i j then LIVE else DEAD))) wp)"
proof -
  have eq: "(\<lambda>i. for_each [0..n - 1] (\<lambda>j wp.
              if coin i j then store wp (i * n + j) LIVE
              else store wp (i * n + j) DEAD))
        = (\<lambda>i. for_each [0..n - 1] (\<lambda>j wp. store wp (i * n + j) (if coin i j then LIVE else DEAD)))"
    by (intro ext arg_cong2 [where f = "\<lambda>a b. for_each a b"]) auto
  show ?thesis unfolding Gen_world_def eq by (rule bind_Some_map)
qed

lemma generation_0_length:
  assumes "(if ig = CHR ''i'' then Read_world inp p1 b m n else Gen_world coin p2 b m n)
           = Some (out0, g0)"
    and "0 \<le> m" "0 \<le> n" "b = [] \<or> length b = nat (m * n)"
  shows "length g0 = nat (m * n)"
proof -
  obtain f where fill:
    "for_each [0..m - 1] (\<lambda>i. for_each [0..n - 1] (\<lambda>j wp. store wp (i * n + j) (f i j))) b = Some g0"
    using assms(1) by (cases "ig = CHR ''i''") (auto simp: Read_world_fill Gen_world_fill)
  have len: "length g0 = length b" using fill by (rule fill_world_length)
  show ?thesis
  proof (cases "b = []")
    case True
    have "\<not> (0 < m \<and> 0 < n)" using fill fill_world_null [of m n f] True by auto
    then have "m = 0 \<or> n = 0" using assms(2,3) by auto
    then show ?thesis using len True by auto
  next
    case False
    then show ?thesis using len assms(4) by simp
  qed
qed

section \<open>Steps of a well-formed state\<close>

lemma tile_pc_Top [simp]: "(tile r s m n w)\<lparr>pc := Top\<rparr> = tile r s m n w"
  by (simp add: tile_def)

lemma tile_cells_pc [simp]: "tile_cells (th\<lparr>pc := p\<rparr>) = tile_cells th"
  by (simp add: tile_cells_def)

lemma deref_length: "wf st \<Longrightarrow> length (deref st b) = nat (g_m st * g_n st)"
  by (cases b) (simp_all add: wf_def deref_def)

lemma wf_thread_tile:
  assumes "wf st" "t < length (threads st)"
  shows "tile_cells (threads st ! t) = tile_cells (tile (g_r st) (g_s st) (g_m st) (g_n st) (int t))"
proof -
  have "(threads st ! t)\<lparr>pc := Top\<rparr> = tile (g_r st) (g_s st) (g_m st) (g_n st) (int t)"
    using assms by (simp add: wf_def)
  then show ?thesis by (metis tile_cells_pc)
qed

lemma wf_cell_in_grid:
  assumes "wf st" "t < length (threads st)" "c \<in> set (tile_cells (threads st ! t))"
  shows "0 \<le> fst c \<and> fst c < g_m st \<and> 0 \<le> snd c \<and> snd c < g_n st"
proof -
  have "int t < g_r st * g_s st" using assms by (simp add: wf_def)
  moreover have "(fst c, snd c) \<in> set (tile_cells (tile (g_r st) (g_s st) (g_m st) (g_n st) (int t)))"
    using assms wf_thread_tile by simp
  ultimately show ?thesis
    using assms(1) by (intro tile_in_grid [where w = "int t" and r = "g_r st" and s = "g_s st"])
       (simp_all add: wf_def)
qed

lemma assign_fields [simp]:
  "thread_count (assign b a st) = thread_count st" "g_r (assign b a st) = g_r st"
  "g_s (assign b a st) = g_s st" "g_m (assign b a st) = g_m st" "g_n (assign b a st) = g_n st"
  "g_wp (assign b a st) = g_wp st" "g_twp (assign b a st) = g_twp st"
  "max_gens (assign b a st) = max_gens st" "barrier_count (assign b a st) = barrier_count st"
  "curr_gen (assign b a st) = curr_gen st" "live_count (assign b a st) = live_count st"
  "break_flag (assign b a st) = break_flag st" "stdout (assign b a st) = stdout st"
  "threads (assign b a st) = threads st"
  by (cases b; simp add: assign_def)+

lemma deref_assign [simp]: "deref (assign b a st) b' = (if b' = b then a else deref st b')"
  by (cases b; cases b'; simp add: assign_def deref_def)

lemma deref_live_count [simp]: "deref (st\<lparr>live_count := x\<rparr>) b = deref st b"
  by (cases b) (simp_all add: deref_def)

lemma Play_cell_write_cell:
  assumes "length (deref st (g_wp st)) = nat (g_m st * g_n st)"
    and "length (deref st (g_twp st)) = nat (g_m st * g_n st)"
    and "0 \<le> i" "i < g_m st" "0 \<le> j" "j < g_n st"
  shows "Play_cell (i, j) st = Some (write_cell (i, j) st)"
    and "written_live (i, j) (write_cell (i, j) st)
         = Some (next_state (deref st (g_wp st)) (g_m st) (g_n st) (i, j) = LIVE)"
proof -
  define v where "v = next_state (deref st (g_wp st)) (g_m st) (g_n st) (i, j)"
  define a where "a = (deref st (g_twp st))[nat (i * g_n st + j) := v]"
  have pos: "0 < g_m st" "0 < g_n st" using assms by auto
  have count: "Count_nbhrs (deref st (g_wp st)) (g_m st) (g_n st) i j
        = Some (sum_list (map (cell (deref st (g_wp st)) (g_n st)) (nbhr_cells (g_m st) (g_n st) i j)))"
    using assms by (intro Count_nbhrs_sum pos) auto
  have ld: "load (deref st (g_wp st)) (i * g_n st + j) = Some (cell (deref st (g_wp st)) (g_n st) (i, j))"
    using assms by (intro load_cell [where m = "g_m st"]) auto
  have idx: "0 \<le> i * g_n st + j" "i * g_n st + j < g_m st * g_n st"
    using assms by (auto intro: cell_index)
  define cnt where "cnt = sum_list (map (cell (deref st (g_wp st)) (g_n st)) (nbhr_cells (g_m st) (g_n st) i j))"
  have 1: "(if cnt < 2 \<or> cnt > 3 then Some DEAD
            else if cnt = 2 then load (deref st (g_wp st)) (i * g_n st + j)
            else Some LIVE) = Some v"
    by (simp add: cnt_def ld v_def next_state_def Let_def)
  have 2: "store (deref st (g_twp st)) (i * g_n st + j) v = Some a"
    using idx assms(2) by (simp add: store_def a_def)
  have 3: "load a (i * g_n st + j) = Some v"
    using idx assms(2) by (simp add: load_def a_def)
  have "Play_cell (i, j) st = Some (assign (g_twp st) a st)"
    unfolding Play_cell_def
    by (simp only: prod.case count [folded cnt_def] Option.bind.simps 1 2)
  then show "Play_cell (i, j) st = Some (write_cell (i, j) st)"
    by (simp add: write_cell_def v_def a_def)
  have "write_cell (i, j) st = assign (g_twp st) a st"
    by (simp add: write_cell_def v_def a_def)
  then show "written_live (i, j) (write_cell (i, j) st)
         = Some (next_state (deref st (g_wp st)) (g_m st) (g_n st) (i, j) = LIVE)"
    using 3 by (simp add: written_live_def v_def)
qed

lemma set_pc_fields [simp]:
  "thread_count (set_pc t p st) = thread_count st" "g_r (set_pc t p st) = g_r st"
  "g_s (set_pc t p st) = g_s st" "g_m (set_pc t p st) = g_m st" "g_n (set_pc t p st) = g_n st"
  "g_wp (set_pc t p st) = g_wp st" "g_twp (set_pc t p st) = g_twp st"
  "max_gens (set_pc t p st) = max_gens st" "barrier_count (set_pc t p st) = barrier_count st"
  "curr_gen (set_pc t p st) = curr_gen st" "live_count (set_pc t p st) = live_count st"
  "break_flag (set_pc t p st) = break_flag st" "stdout (set_pc t p st) = stdout st"
  "w1 (set_pc t p st) = w1 st" "w2 (set_pc t p st) = w2 st"
  "deref (set_pc t p st) b = deref st b"
  "length (threads (set_pc t p st)) = length (threads st)"
  by (simp_all add: set_pc_def deref_def split: buf.split)

lemma set_pc_nth:
  "t' < length (threads st) \<Longrightarrow>
   threads (set_pc t p st) ! t' = (if t' = t then (threads st ! t)\<lparr>pc := p\<rparr> else threads st ! t')"
  by (simp add: set_pc_def nth_list_update)

lemma broadcast_fields [simp]:
  "thread_count (broadcast st) = thread_count st" "g_r (broadcast st) = g_r st"
  "g_s (broadcast st) = g_s st" "g_m (broadcast st) = g_m st" "g_n (broadcast st) = g_n st"
  "g_wp (broadcast st) = g_wp st" "g_twp (broadcast st) = g_twp st"
  "max_gens (broadcast st) = max_gens st" "barrier_count (broadcast st) = barrier_count st"
  "curr_gen (broadcast st) = curr_gen st" "live_count (broadcast st) = live_count st"
  "break_flag (broadcast st) = break_flag st" "stdout (broadcast st) = stdout st"
  "w1 (broadcast st) = w1 st" "w2 (broadcast st) = w2 st"
  "deref (broadcast st) b = deref st b"
  "length (threads (broadcast st)) = length (threads st)"
  by (simp_all add: broadcast_def deref_def split: buf.split)

lemma broadcast_nth:
  "t < length (threads st) \<Longrightarrow>
   threads (broadcast st) ! t =
     (if pc (threads st ! t) = Waiting then (threads st ! t)\<lparr>pc := Woken\<rparr> else threads st ! t)"
  by (simp add: broadcast_def)

lemma write_cell_fields [simp]:
  "thread_count (write_cell c st) = thread_count st" "g_r (write_cell c st) = g_r st"
  "g_s (write_cell c st) = g_s st" "g_m (write_cell c st) = g_m st" "g_n (write_cell c st) = g_n st"
  "g_wp (write_cell c st) = g_wp st" "g_twp (write_cell c st) = g_twp st"
  "max_gens (write_cell c st) = max_gens st" "barrier_count (write_cell c st) = barrier_count st"
  "curr_gen (write_cell c st) = curr_gen st" "live_count (write_cell c st) = live_count st"
  "break_flag (write_cell c st) = break_flag st" "stdout (write_cell c st) = stdout st"
  "threads (write_cell c st) = threads st"
  by (simp_all add: write_cell_def)

lemma write_cell_lengths [simp]:
  "length (w1 (write_cell c st)) = length (w1 st)" "length (w2 (write_cell c st)) = length (w2 st)"
  by (simp_all add: write_cell_def assign_def deref_def split: buf.split)

lemma write_cell_deref:
  "deref (write_cell c st) b =
     (if b = g_twp st
      then (deref st b)[nat (fst c * g_n st + snd c) := next_state (deref st (g_wp st)) (g_m st) (g_n st) c]
      else deref st b)"
  by (simp add: write_cell_def)

lemma live_count_fields [simp]:
  "thread_count (st\<lparr>live_count := x\<rparr>) = thread_count st"
  "w1 (st\<lparr>live_count := x\<rparr>) = w1 st" "w2 (st\<lparr>live_count := x\<rparr>) = w2 st"
  "threads (st\<lparr>live_count := x\<rparr>) = threads st"
  by simp_all

lemma leader_extinct_fields [simp]:
  "thread_count (leader_extinct st) = thread_count st" "g_r (leader_extinct st) = g_r st"
  "g_s (leader_extinct st) = g_s st" "g_m (leader_extinct st) = g_m st"
  "g_n (leader_extinct st) = g_n st"
  "g_wp (leader_extinct st) = g_wp st" "g_twp (leader_extinct st) = g_twp st"
  "max_gens (leader_extinct st) = max_gens st" "barrier_count (leader_extinct st) = 0"
  "curr_gen (leader_extinct st) = curr_gen st" "live_count (leader_extinct st) = 0"
  "break_flag (leader_extinct st) = 1" "stdout (leader_extinct st) = stdout st"
  "w1 (leader_extinct st) = w1 st" "w2 (leader_extinct st) = w2 st"
  "deref (leader_extinct st) b = deref st b"
  "threads (leader_extinct st) = threads st"
  by (simp_all add: leader_extinct_def deref_def split: buf.split)

lemma leader_swap_fields [simp]:
  "thread_count (leader_swap st) = thread_count st" "g_r (leader_swap st) = g_r st"
  "g_s (leader_swap st) = g_s st" "g_m (leader_swap st) = g_m st"
  "g_n (leader_swap st) = g_n st"
  "g_wp (leader_swap st) = g_twp st" "g_twp (leader_swap st) = g_wp st"
  "max_gens (leader_swap st) = max_gens st" "barrier_count (leader_swap st) = 0"
  "curr_gen (leader_swap st) = curr_gen st + 1" "live_count (leader_swap st) = 0"
  "break_flag (leader_swap st) = break_flag st"
  "stdout (leader_swap st) = stdout st @ render (''Generation '' @ show_int (curr_gen st + 1))
                                               (deref st (g_twp st)) (g_m st) (g_n st)"
  "w1 (leader_swap st) = w1 st" "w2 (leader_swap st) = w2 st"
  "deref (leader_swap st) b = deref st b"
  "threads (leader_swap st) = threads st"
  by (simp_all add: leader_swap_def deref_def split: buf.split)

lemma Pointer_swap_eq:
  assumes "length (deref st (g_twp st)) = nat (g_m st * g_n st)"
  shows "Pointer_swap st =
           Some (st\<lparr>g_wp := g_twp st, g_twp := g_wp st, curr_gen := curr_gen st + 1,
                   stdout := stdout st @ render (''Generation '' @ show_int (curr_gen st + 1))
                                                (deref st (g_twp st)) (g_m st) (g_n st)\<rparr>)"
proof -
  have "Print_world (''Generation '' @ show_int (curr_gen st + 1)) (deref st (g_twp st)) (g_m st) (g_n st)
        = Some (render (''Generation '' @ show_int (curr_gen st + 1)) (deref st (g_twp st)) (g_m st) (g_n st))"
    using assms by (rule Print_world_render)
  moreover have "deref (st\<lparr>g_wp := g_twp st, g_twp := g_wp st, curr_gen := curr_gen st + 1\<rparr>) b
                 = deref st b" for b
    by (simp add: deref_def split: buf.split)
  ultimately show ?thesis by (simp add: Pointer_swap_def Let_def)
qed

lemma Barrier_wait:
  assumes "barrier_count st + 1 \<noteq> thread_count st"
  shows "Barrier t st = Some (set_pc t Waiting (st\<lparr>barrier_count := barrier_count st + 1\<rparr>))"
  using assms by (simp add: Barrier_def Let_def)

lemma Barrier_extinct:
  assumes "barrier_count st + 1 = thread_count st" "live_count st = 0"
  shows "Barrier t st = Some (set_pc t Woken (broadcast (leader_extinct st)))"
proof -
  show ?thesis using assms by (simp add: Barrier_def Let_def leader_extinct_def)
qed

lemma Barrier_swap:
  assumes "barrier_count st + 1 = thread_count st" "live_count st \<noteq> 0"
    and "length (deref st (g_twp st)) = nat (g_m st * g_n st)"
  shows "Barrier t st = Some (set_pc t Woken (broadcast (leader_swap st)))"
proof -
  have d: "deref (st\<lparr>barrier_count := x\<rparr>) b = deref st b" for x b
    by (simp add: deref_def split: buf.split)
  have "Pointer_swap (st\<lparr>barrier_count := barrier_count st + 1\<rparr>) =
          Some (st\<lparr>barrier_count := barrier_count st + 1, g_wp := g_twp st, g_twp := g_wp st,
                  curr_gen := curr_gen st + 1,
                  stdout := stdout st @ render (''Generation '' @ show_int (curr_gen st + 1))
                                                (deref st (g_twp st)) (g_m st) (g_n st)\<rparr>)"
    using assms(3) by (simp add: Pointer_swap_eq d)
  then show ?thesis using assms(1,2) by (simp add: Barrier_def Let_def leader_swap_def)
qed

lemma step_cell:
  assumes "wf st" "t < length (threads st)" "pc (threads st ! t) = Tile k"
    and "k < length (tile_cells (threads st ! t))"
  shows "step t st =
           Some (set_pc t (if next_state (deref st (g_wp st)) (g_m st) (g_n st)
                                         (tile_cells (threads st ! t) ! k) = LIVE
                           then Load k else Tile (Suc k))
                        (write_cell (tile_cells (threads st ! t) ! k) st))"
proof -
  obtain i j where c: "tile_cells (threads st ! t) ! k = (i, j)"
    by (cases "tile_cells (threads st ! t) ! k")
  have "(i, j) \<in> set (tile_cells (threads st ! t))" using assms(4) c by (metis nth_mem)
  then have g: "0 \<le> i" "i < g_m st" "0 \<le> j" "j < g_n st"
    using wf_cell_in_grid [OF assms(1,2)] by fastforce+
  have len: "length (deref st (g_wp st)) = nat (g_m st * g_n st)"
    "length (deref st (g_twp st)) = nat (g_m st * g_n st)"
    using deref_length [OF assms(1)] by simp_all
  show ?thesis
    using assms(2-4) Play_cell_write_cell [OF len g] by (simp add: step_def c)
qed

lemma step_cases [consumes 2, case_names idle top cell load store wait extinct swap spurious woken]:
  assumes "wf st" "step t st = Some st'"
  obtains
    (idle) "st' = st"
  | (top) "t < length (threads st)" "pc (threads st ! t) = Top"
      "st' = set_pc t (if curr_gen st < max_gens st then Tile 0 else Exited) st"
  | (cell) k where "t < length (threads st)" "pc (threads st ! t) = Tile k"
      "k < length (tile_cells (threads st ! t))"
      "st' = set_pc t (if next_state (deref st (g_wp st)) (g_m st) (g_n st)
                                     (tile_cells (threads st ! t) ! k) = LIVE
                       then Load k else Tile (Suc k))
                    (write_cell (tile_cells (threads st ! t) ! k) st)"
  | (load) k where "t < length (threads st)" "pc (threads st ! t) = Load k"
      "st' = set_pc t (Store k (live_count st)) st"
  | (store) k v where "t < length (threads st)" "pc (threads st ! t) = Store k v"
      "st' = set_pc t (Tile (Suc k)) (st\<lparr>live_count := v + 1\<rparr>)"
  | (wait) k where "t < length (threads st)" "pc (threads st ! t) = Tile k"
      "length (tile_cells (threads st ! t)) \<le> k" "barrier_count st + 1 \<noteq> thread_count st"
      "st' = set_pc t Waiting (st\<lparr>barrier_count := barrier_count st + 1\<rparr>)"
  | (extinct) k where "t < length (threads st)" "pc (threads st ! t) = Tile k"
      "length (tile_cells (threads st ! t)) \<le> k" "barrier_count st + 1 = thread_count st"
      "live_count st = 0" "st' = set_pc t Woken (broadcast (leader_extinct st))"
  | (swap) k where "t < length (threads st)" "pc (threads st ! t) = Tile k"
      "length (tile_cells (threads st ! t)) \<le> k" "barrier_count st + 1 = thread_count st"
      "live_count st \<noteq> 0" "st' = set_pc t Woken (broadcast (leader_swap st))"
  | (spurious) "t < length (threads st)" "pc (threads st ! t) = Waiting"
      "st' = set_pc t Woken st"
  | (woken) "t < length (threads st)" "pc (threads st ! t) = Woken"
      "st' = set_pc t (if break_flag st = 1 then Exited else Top) st"
proof (cases "t < length (threads st)")
  case False
  then show ?thesis using assms(2) idle by (simp add: step_def)
next
  case t: True
  show ?thesis
  proof (cases "pc (threads st ! t)")
    case Top
    then show ?thesis using t assms(2) top by (simp add: step_def)
  next
    case (Tile k)
    show ?thesis
    proof (cases "k < length (tile_cells (threads st ! t))")
      case True
      then show ?thesis using t Tile assms(2) cell step_cell [OF assms(1) t Tile True] by simp
    next
      case False
      show ?thesis
      proof (cases "barrier_count st + 1 = thread_count st")
        case last: True
        show ?thesis
        proof (cases "live_count st = 0")
          case True
          then show ?thesis
            using t Tile False last assms(2) extinct by (simp add: step_def Barrier_extinct)
        next
          case nz: False
          then show ?thesis
            using t Tile False last assms(2) swap deref_length [OF assms(1)]
            by (simp add: step_def Barrier_swap)
        qed
      next
        case nl: False
        then show ?thesis using t Tile False assms(2) wait by (simp add: step_def Barrier_wait)
      qed
    qed
  next
    case (Load k)
    then show ?thesis using t assms(2) load by (simp add: step_def)
  next
    case (Store k v)
    then show ?thesis using t assms(2) store by (simp add: step_def)
  next
    case Waiting
    then show ?thesis using t assms(2) spurious by (simp add: step_def)
  next
    case Woken
    then show ?thesis using t assms(2) woken by (simp add: step_def)
  next
    case Exited
    then show ?thesis using t assms(2) idle by (simp add: step_def)
  next
    case NotCreated
    then show ?thesis using t assms(2) idle by (simp add: step_def)
  qed
qed

lemma step_defined:
  assumes "wf st"
  shows "\<exists>st'. step t st = Some st'"
proof (cases "t < length (threads st)")
  case False
  then show ?thesis by (simp add: step_def)
next
  case t: True
  show ?thesis
  proof (cases "pc (threads st ! t)")
    case (Tile k)
    show ?thesis
    proof (cases "k < length (tile_cells (threads st ! t))")
      case True
      then show ?thesis using step_cell [OF assms t Tile True] by simp
    next
      case False
      then show ?thesis
        using t Tile deref_length [OF assms]
        by (cases "barrier_count st + 1 = thread_count st"; cases "live_count st = 0")
           (simp_all add: step_def Barrier_extinct Barrier_swap Barrier_wait)
    qed
  qed (simp_all add: step_def t)
qed

lemma wf_step:
  assumes "wf st" "step t st = Some st'"
  shows "wf st'"
  using assms
proof (cases rule: step_cases)
  case idle
  then show ?thesis using assms by simp
next
  case top
  then show ?thesis using assms(1) by (simp add: wf_def set_pc_nth)
next
  case (cell k)
  then show ?thesis using assms(1) by (simp add: wf_def set_pc_nth)
next
  case (load k)
  then show ?thesis using assms(1) by (simp add: wf_def set_pc_nth)
next
  case (store k v)
  then show ?thesis using assms(1) by (simp add: wf_def set_pc_nth)
next
  case (wait k)
  then show ?thesis using assms(1) by (simp add: wf_def set_pc_nth)
next
  case (extinct k)
  then show ?thesis using assms(1) by (simp add: wf_def set_pc_nth broadcast_nth)
next
  case (swap k)
  then show ?thesis using assms(1) by (auto simp add: wf_def set_pc_nth broadcast_nth)
next
  case spurious
  then show ?thesis using assms(1) by (simp add: wf_def set_pc_nth)
next
  case woken
  then show ?thesis using assms(1) by (simp add: wf_def set_pc_nth)
qed

lemma run_Nil [simp]: "run [] st = Some st"
  by (simp add: run_def)

lemma run_Cons:
  "run (t # sched) st = (case step t st of None \<Rightarrow> None | Some st' \<Rightarrow> run sched st')"
  by (simp add: run_def split: option.split)

lemma run_append:
  "run (xs @ ys) st = (case run xs st of None \<Rightarrow> None | Some st' \<Rightarrow> run ys st')"
  by (induction xs arbitrary: st) (simp_all add: run_Cons split: option.split)

lemma run_wf:
  assumes "wf st"
  shows "\<exists>st'. run sched st = Some st' \<and> wf st'"
  using assms
proof (induction sched arbitrary: st)
  case Nil
  then show ?case by simp
next
  case (Cons t sched)
  obtain st1 where 1: "step t st = Some st1" using step_defined [OF Cons.prems] by blast
  then have "wf st1" using Cons.prems by (rule wf_step [rotated])
  then show ?case using Cons.IH 1 by (simp add: run_Cons)
qed

lemma run_invariant:
  assumes step: "\<And>t st st'. wf st \<Longrightarrow> I st \<Longrightarrow> step t st = Some st' \<Longrightarrow> I st'"
    and "wf st" "I st" "run sched st = Some st'"
  shows "I st'"
  using assms(2-)
proof (induction sched arbitrary: st)
  case Nil
  then show ?case by simp
next
  case (Cons t sched)
  obtain st1 where 1: "step t st = Some st1" using step_defined [OF Cons.prems(1)] by blast
  have "wf st1" "I st1" using 1 Cons.prems step wf_step by blast+
  moreover have "run sched st1 = Some st'" using Cons.prems(3) 1 by (simp add: run_Cons)
  ultimately show ?case by (rule Cons.IH)
qed

text \<open>Invariants of the runs in which no \<open>pthread_cond_wait\<close> returns spuriously.\<close>

lemma orderly_invariant:
  assumes step: "\<And>t st st'. wf st \<Longrightarrow> I st \<Longrightarrow> step t st = Some st' \<Longrightarrow>
                   \<not> (t < length (threads st) \<and> pc (threads st ! t) = Waiting) \<Longrightarrow> I st'"
    and "wf st" "I st" "run sched st = Some st'" "no_spurious_wakeup sched st"
  shows "I st'"
  using assms(2-)
proof (induction sched arbitrary: st)
  case Nil
  then show ?case by simp
next
  case (Cons t sched)
  obtain st1 where 1: "step t st = Some st1" using step_defined [OF Cons.prems(1)] by blast
  have aw: "\<not> (t < length (threads st) \<and> pc (threads st ! t) = Waiting)"
    "no_spurious_wakeup sched st1"
    using Cons.prems(4) 1 by simp_all
  have "wf st1" "I st1" using 1 Cons.prems(1,2) aw(1) step wf_step by blast+
  moreover have "run sched st1 = Some st'" using Cons.prems(3) 1 by (simp add: run_Cons)
  ultimately show ?case using aw(2) by (intro Cons.IH)
qed

lemma join_threads_Exited:
  "list_all (\<lambda>th. pc th = Exited) ths \<Longrightarrow> join_threads ths out = Terminated 0 out []"
  by (induction ths) simp_all

section \<open>The start of the threads\<close>

lemma launch_pc_Top [simp]: "(launch b th)\<lparr>pc := Top\<rparr> = th\<lparr>pc := Top\<rparr>"
  by (simp add: launch_def)

lemma Play_life_entry_threads [simp]:
  "Play_life_entry (st\<lparr>threads := ths\<rparr>) w = Play_life_entry st w"
  by (simp add: Play_life_entry_def)

lemma Play_life_entry_pc: "Play_life_entry st w = Some th \<Longrightarrow> pc th = Top"
  by (auto simp: Play_life_entry_def split: Option.bind_splits)

lemma main_start_props:
  assumes "main_start strtol malloc pthread_create argv inp coin junk1 junk2 = Started st"
  shows "length argv = 7"
    and "g_r st = int_of_long (strtol (argv ! 1))" "g_s st = int_of_long (strtol (argv ! 2))"
    and "g_m st = int_of_long (strtol (argv ! 3))" "g_n st = int_of_long (strtol (argv ! 4))"
    and "max_gens st = int_of_long (strtol (argv ! 5))"
    and "thread_count st = g_r st * g_s st"
    and "g_wp st = W1" "g_twp st = W2"
    and "barrier_count st = 0" "curr_gen st = 0" "live_count st = 0" "break_flag st = 0"
    and "w2 st = (if malloc 2 then map junk2 [0..<nat (g_m st * g_n st)] else [])"
    and "\<exists>out0 out1 b ig. stdout st = out0 @ [newline] @ out1
           \<and> Print_world ''Generation 0'' (w1 st) (g_m st) (g_n st) = Some out1
           \<and> (b = [] \<or> length b = nat (g_m st * g_n st))
           \<and> (if ig = CHR ''i'' then Read_world inp ''Enter generation 0'' b (g_m st) (g_n st)
               else Gen_world coin ''What's the prob that a cell is alive?'' b (g_m st) (g_n st))
              = Some (out0, w1 st)"
    and "length (threads st) = nat (thread_count st)"
    and "\<forall>t < length (threads st). \<exists>th. Play_life_entry st (int t) = Some th
           \<and> threads st ! t = launch (pthread_create t) th"
proof -
  show len: "length argv = 7"
    using assms by (auto simp: main_start_def split: if_splits list.splits)
  define r s m n mg where "r = int_of_long (strtol (argv ! 1))"
    and "s = int_of_long (strtol (argv ! 2))" and "m = int_of_long (strtol (argv ! 3))"
    and "n = int_of_long (strtol (argv ! 4))" and "mg = int_of_long (strtol (argv ! 5))"
  define ig where "ig = (case argv ! 6 of [] \<Rightarrow> CHR 0x00 | c # _ \<Rightarrow> c)"
  define b1 where "b1 = (if malloc 1 then map junk1 [0..<nat (m * n)] else [])"
  define b2 where "b2 = (if malloc 2 then map junk2 [0..<nat (m * n)] else [])"
  define st1 where "st1 = (\<lambda>out0 g0 out1.
       \<lparr>thread_count = r * s, g_r = r, g_s = s, g_m = m, g_n = n,
        g_wp = W1, g_twp = W2, max_gens = mg, barrier_count = 0,
        curr_gen = 0, live_count = 0, break_flag = 0,
        w1 = g0, w2 = b2, stdout = out0 @ [newline] @ out1, threads = []\<rparr>)"
  obtain out0 g0 out1 ths where fill:
    "(if ig = CHR ''i'' then Read_world inp ''Enter generation 0'' b1 m n
      else Gen_world coin ''What's the prob that a cell is alive?'' b1 m n) = Some (out0, g0)"
    and pr: "Print_world ''Generation 0'' g0 m n = Some out1"
    and ths: "those (map (\<lambda>t. map_option (launch (pthread_create t))
                                           (Play_life_entry (st1 out0 g0 out1) (int t)))
                         [0..<nat (r * s)]) = Some ths"
      "st = (st1 out0 g0 out1)\<lparr>threads := ths\<rparr>"
    using assms len
    unfolding main_start_def r_def s_def m_def n_def mg_def ig_def b1_def b2_def st1_def
    by (auto simp: Let_def c_int_def split: option.splits if_splits)
  show "g_r st = int_of_long (strtol (argv ! 1))" "g_s st = int_of_long (strtol (argv ! 2))"
    "g_m st = int_of_long (strtol (argv ! 3))" "g_n st = int_of_long (strtol (argv ! 4))"
    "max_gens st = int_of_long (strtol (argv ! 5))"
    "thread_count st = g_r st * g_s st"
    "g_wp st = W1" "g_twp st = W2"
    "barrier_count st = 0" "curr_gen st = 0" "live_count st = 0" "break_flag st = 0"
    "w2 st = (if malloc 2 then map junk2 [0..<nat (g_m st * g_n st)] else [])"
    by (simp_all add: ths(2) st1_def r_def s_def m_def n_def mg_def b2_def)
  have "b1 = [] \<or> length b1 = nat (g_m st * g_n st)"
    by (simp add: ths(2) st1_def b1_def)
  moreover have "stdout st = out0 @ [newline] @ out1"
    "Print_world ''Generation 0'' (w1 st) (g_m st) (g_n st) = Some out1"
    "(if ig = CHR ''i'' then Read_world inp ''Enter generation 0'' b1 (g_m st) (g_n st)
      else Gen_world coin ''What's the prob that a cell is alive?'' b1 (g_m st) (g_n st))
     = Some (out0, w1 st)"
    using fill pr by (auto simp: ths(2) st1_def split: if_splits)
  ultimately show "\<exists>out0 out1 b ig. stdout st = out0 @ [newline] @ out1
           \<and> Print_world ''Generation 0'' (w1 st) (g_m st) (g_n st) = Some out1
           \<and> (b = [] \<or> length b = nat (g_m st * g_n st))
           \<and> (if ig = CHR ''i'' then Read_world inp ''Enter generation 0'' b (g_m st) (g_n st)
               else Gen_world coin ''What's the prob that a cell is alive?'' b (g_m st) (g_n st))
              = Some (out0, w1 st)"
    by blast
  have nth: "length ths = nat (r * s)"
    "\<forall>i < nat (r * s). map_option (launch (pthread_create i))
                                      (Play_life_entry (st1 out0 g0 out1) (int i)) = Some (ths ! i)"
    using those_Some_nth [OF ths(1)] by simp_all
  show "length (threads st) = nat (thread_count st)"
    using nth(1) by (simp add: ths(2) st1_def)
  show "\<forall>t < length (threads st). \<exists>th. Play_life_entry st (int t) = Some th
           \<and> threads st ! t = launch (pthread_create t) th"
    using nth by (auto simp: ths(2))
qed

lemma main_start_pcs:
  assumes "main_start strtol malloc pthread_create argv inp coin junk1 junk2 = Started st"
  shows "list_all (\<lambda>th. pc th = Top \<or> pc th = NotCreated) (threads st)"
  unfolding list_all_length
proof (intro allI impI)
  fix t assume "t < length (threads st)"
  then obtain th where "Play_life_entry st (int t) = Some th"
    "threads st ! t = launch (pthread_create t) th"
    using main_start_props(17) [OF assms] by blast
  then show "pc (threads st ! t) = Top \<or> pc (threads st ! t) = NotCreated"
    using Play_life_entry_pc [of st "int t" th] by (simp add: launch_def)
qed

lemma main_start_wf:
  assumes "main_start strtol malloc pthread_create argv inp coin junk1 junk2 = Started st"
    and "0 < g_r st" "0 < g_s st" "0 \<le> g_m st" "0 \<le> g_n st" and "malloc 2"
  shows "wf st"
proof -
  note p = main_start_props [OF assms(1)]
  have w2: "length (w2 st) = nat (g_m st * g_n st)" using p(14) assms(6) by simp
  obtain out0 out1 b ig where fill:
    "b = [] \<or> length b = nat (g_m st * g_n st)"
    "(if ig = CHR ''i'' then Read_world inp ''Enter generation 0'' b (g_m st) (g_n st)
      else Gen_world coin ''What's the prob that a cell is alive?'' b (g_m st) (g_n st))
     = Some (out0, w1 st)"
    using p(15) by blast
  have w1: "length (w1 st) = nat (g_m st * g_n st)"
    using fill(2) assms(4,5) fill(1) by (rule generation_0_length)
  have "(threads st ! t)\<lparr>pc := Top\<rparr> = tile (g_r st) (g_s st) (g_m st) (g_n st) (int t)"
    if h: "t < length (threads st)" for t
  proof -
    obtain th where th: "Play_life_entry st (int t) = Some th"
      "threads st ! t = launch (pthread_create t) th"
      using p(17) h by blast
    have "th = tile (g_r st) (g_s st) (g_m st) (g_n st) (int t)"
      using Play_life_entry_tile [OF assms(2-5), of "int t"] th(1) by simp
    then show ?thesis using th(2) by simp
  qed
  then show ?thesis using p(7-9,16) assms(2-5) w1 w2 by (simp add: wf_def)
qed

lemma main_start_output:
  assumes "main_start strtol malloc pthread_create argv inp coin junk1 junk2 = Started st"
    and "wf st"
  shows "\<exists>out0. stdout st = out0 @ [newline] @ render ''Generation 0'' (w1 st) (g_m st) (g_n st)"
proof -
  obtain out0 out1 where o: "stdout st = out0 @ [newline] @ out1"
    "Print_world ''Generation 0'' (w1 st) (g_m st) (g_n st) = Some out1"
    using main_start_props(15) [OF assms(1)] by blast
  have "length (w1 st) = nat (g_m st * g_n st)" using assms(2) by (simp add: wf_def)
  then have "Print_world ''Generation 0'' (w1 st) (g_m st) (g_n st)
             = Some (render ''Generation 0'' (w1 st) (g_m st) (g_n st))"
    by (rule Print_world_render)
  then show ?thesis using o by simp
qed

lemma reachable_wf:
  assumes "main_start strtol malloc pthread_create argv inp coin junk1 junk2 = Started st0"
    and "0 < g_r st0" "0 < g_s st0" "0 \<le> g_m st0" "0 \<le> g_n st0" and "malloc 2"
    and "run sched st0 = Some st"
  shows "wf st"
  using run_wf [OF main_start_wf [OF assms(1-6)], of sched] assms(7) by auto

section \<open>The claims on the sequential parts\<close>

text \<open>
  Claim C6. In a grid of \<open>r\<close> by \<open>s\<close> threads, \<open>r\<close> and \<open>s\<close> positive, the worker \<open>w\<close> with
  \<open>0 \<le> w < r * s\<close> visits the cells of the rows from \<open>(w div s) * (m div r)\<close>, \<open>m div r\<close>
  of them, and of the columns from \<open>(w mod s) * (n div s)\<close>, \<open>n div s\<close> of them, each cell
  once. The tile lies in the world, and the tiles of two workers have no cell in common.
  When \<open>r\<close> divides \<open>m\<close> and \<open>s\<close> divides \<open>n\<close> the tiles of all workers together are the
  whole world: they partition it.
\<close>

theorem tiles_partition:
  assumes "0 < g_r st" "0 < g_s st" "0 \<le> g_m st" "0 \<le> g_n st"
    and "0 \<le> w" "w < g_r st * g_s st"
  shows "\<exists>th. Play_life_entry st w = Some th
    \<and> set (tile_cells th) =
        {(i, j). (w div g_s st) * (g_m st div g_r st) \<le> i
               \<and> i < (w div g_s st) * (g_m st div g_r st) + g_m st div g_r st
               \<and> (w mod g_s st) * (g_n st div g_s st) \<le> j
               \<and> j < (w mod g_s st) * (g_n st div g_s st) + g_n st div g_s st}
    \<and> distinct (tile_cells th)
    \<and> set (tile_cells th) \<subseteq> {0..<g_m st} \<times> {0..<g_n st}
    \<and> (\<forall>w' th'. 0 \<le> w' \<and> w' < g_r st * g_s st \<and> w' \<noteq> w \<and> Play_life_entry st w' = Some th'
          \<longrightarrow> set (tile_cells th) \<inter> set (tile_cells th') = {})
    \<and> (g_r st dvd g_m st \<and> g_s st dvd g_n st \<longrightarrow>
          (\<Union>w' \<in> {0..<g_r st * g_s st}. set (tile_cells (the (Play_life_entry st w'))))
          = {0..<g_m st} \<times> {0..<g_n st})"
proof -
  let ?r = "g_r st" and ?s = "g_s st" and ?m = "g_m st" and ?n = "g_n st"
  have ent: "Play_life_entry st v = Some (tile ?r ?s ?m ?n v)" if "0 \<le> v" for v
    using assms(1-4) that by (rule Play_life_entry_tile)
  have in_grid: "set (tile_cells (tile ?r ?s ?m ?n v)) \<subseteq> {0..<?m} \<times> {0..<?n}"
    if "0 \<le> v" "v < ?r * ?s" for v
    using tile_in_grid [OF assms(1-4) that] by auto
  have disj: "set (tile_cells (tile ?r ?s ?m ?n w)) \<inter> set (tile_cells th') = {}"
    if "0 \<le> w'" "w' < ?r * ?s" "w' \<noteq> w" "Play_life_entry st w' = Some th'" for w' th'
  proof -
    have "th' = tile ?r ?s ?m ?n w'" using ent [OF that(1)] that(4) by simp
    then show ?thesis
      using tiles_disjoint [OF assms(1,2,5,6) that(1,2)] that(3) by auto
  qed
  have cover: "(\<Union>w' \<in> {0..<?r * ?s}. set (tile_cells (the (Play_life_entry st w'))))
                 = {0..<?m} \<times> {0..<?n}" if dv: "?r dvd ?m" "?s dvd ?n"
  proof (intro equalityI subsetI)
    fix c assume "c \<in> (\<Union>w' \<in> {0..<?r * ?s}. set (tile_cells (the (Play_life_entry st w'))))"
    then obtain v where "0 \<le> v" "v < ?r * ?s" "c \<in> set (tile_cells (tile ?r ?s ?m ?n v))"
      using ent by auto
    then show "c \<in> {0..<?m} \<times> {0..<?n}" using in_grid by blast
  next
    fix c assume c: "c \<in> {0..<?m} \<times> {0..<?n}"
    obtain i j where ij: "c = (i, j)" by (cases c)
    obtain v where "0 \<le> v" "v < ?r * ?s" "(i, j) \<in> set (tile_cells (tile ?r ?s ?m ?n v))"
      using tiles_cover [OF assms(1,2) dv, of i j] c ij by auto
    then show "c \<in> (\<Union>w' \<in> {0..<?r * ?s}. set (tile_cells (the (Play_life_entry st w'))))"
      using ent ij by force
  qed
  have rect: "set (tile_cells (tile ?r ?s ?m ?n w)) =
        {(i, j). (w div ?s) * (?m div ?r) \<le> i
               \<and> i < (w div ?s) * (?m div ?r) + ?m div ?r
               \<and> (w mod ?s) * (?n div ?s) \<le> j
               \<and> j < (w mod ?s) * (?n div ?s) + ?n div ?s}"
    by (simp add: set_tile_cells tile_def)
  show ?thesis
  proof (intro exI [of _ "tile ?r ?s ?m ?n w"] conjI allI impI)
    show "Play_life_entry st w = Some (tile ?r ?s ?m ?n w)" by (rule ent [OF assms(5)])
    show "distinct (tile_cells (tile ?r ?s ?m ?n w))" by (rule distinct_tile_cells)
    show "set (tile_cells (tile ?r ?s ?m ?n w)) \<subseteq> {0..<?m} \<times> {0..<?n}"
      by (rule in_grid [OF assms(5,6)])
  qed (use rect disj cover in blast)+
qed

theorem tiles_partition_witness:
  "(\<exists>th. Play_life_entry shape_1x3 1 = Some th \<and> set (tile_cells th) \<subseteq> {0..<3} \<times> {0..<3})
   \<and> (\<Union>w' \<in> {0..<3}. set (tile_cells (the (Play_life_entry shape_1x3 w')))) = {0..<3} \<times> {0..<3}"
proof -
  have g: "g_r shape_1x3 = 1" "g_s shape_1x3 = 3" "g_m shape_1x3 = 3" "g_n shape_1x3 = 3"
    unfolding shape_1x3_def example_def by code_simp+
  have h: "0 < g_r shape_1x3" "0 < g_s shape_1x3" "0 \<le> g_m shape_1x3" "0 \<le> g_n shape_1x3"
    "(0::int) \<le> 1" "1 < g_r shape_1x3 * g_s shape_1x3"
    "g_r shape_1x3 dvd g_m shape_1x3 \<and> g_s shape_1x3 dvd g_n shape_1x3"
    by (simp_all add: g)
  show ?thesis using tiles_partition [OF h(1-6)] h(7) by (auto simp: g)
qed



text \<open>
  Claim C3. The thread whose arrival makes \<open>barrier_count\<close> equal to \<open>thread_count\<close> does,
  before it wakes the others, one of two things. With \<open>live_count\<close> 0 it sets \<open>break_flag\<close>;
  the pointers, the generation counter and the output stay as they are. Otherwise it
  swaps \<open>wp\<close> and \<open>twp\<close>, adds 1 to \<open>curr_gen\<close>, prints the new current world under the title
  of the new generation and sets \<open>live_count\<close> to 0. In both cases \<open>barrier_count\<close> is 0
  afterwards, no thread is left waiting, and the two blocks are not written.
\<close>

theorem Barrier_last_arrival:
  assumes "barrier_count st + 1 = thread_count st"
    and "length (deref st (g_twp st)) = nat (g_m st * g_n st)"
  shows "\<exists>st'. Barrier t st = Some st'
    \<and> barrier_count st' = 0
    \<and> list_all (\<lambda>th. pc th \<noteq> Waiting) (threads st')
    \<and> w1 st' = w1 st \<and> w2 st' = w2 st
    \<and> (live_count st = 0 \<longrightarrow>
          break_flag st' = 1 \<and> g_wp st' = g_wp st \<and> g_twp st' = g_twp st
          \<and> curr_gen st' = curr_gen st \<and> stdout st' = stdout st)
    \<and> (live_count st \<noteq> 0 \<longrightarrow>
          break_flag st' = break_flag st \<and> g_wp st' = g_twp st \<and> g_twp st' = g_wp st
          \<and> curr_gen st' = curr_gen st + 1
          \<and> (\<exists>out. Print_world (''Generation '' @ show_int (curr_gen st + 1))
                                 (deref st (g_twp st)) (g_m st) (g_n st) = Some out
                   \<and> stdout st' = stdout st @ out)
          \<and> live_count st' = 0)"
proof -
  have awake: "list_all (\<lambda>th. pc th \<noteq> Waiting) (threads (set_pc t Woken (broadcast s)))" for s
    unfolding list_all_length
  proof (intro allI impI)
    fix k assume "k < length (threads (set_pc t Woken (broadcast s)))"
    then have "k < length (threads s)" by simp
    then show "pc (threads (set_pc t Woken (broadcast s)) ! k) \<noteq> Waiting"
      by (simp add: set_pc_nth broadcast_nth)
  qed
  show ?thesis
  proof (cases "live_count st = 0")
    case True
    then show ?thesis using assms(1) awake by (simp add: Barrier_extinct)
  next
    case False
    have "Print_world (''Generation '' @ show_int (curr_gen st + 1)) (deref st (g_twp st))
                      (g_m st) (g_n st)
          = Some (render (''Generation '' @ show_int (curr_gen st + 1)) (deref st (g_twp st))
                         (g_m st) (g_n st))"
      using assms(2) by (rule Print_world_render)
    then show ?thesis using False assms awake by (simp add: Barrier_swap)
  qed
qed

theorem Barrier_last_arrival_witness:
  "break_flag (the (Barrier 0 shape_1x1)) = 1
   \<and> curr_gen (the (Barrier 0 shape_1x1)) = 0
   \<and> g_wp (the (Barrier 0 (the (run (replicate 28 0) shape_1x1)))) = W2
   \<and> curr_gen (the (Barrier 0 (the (run (replicate 28 0) shape_1x1)))) = 1
   \<and> live_count (the (Barrier 0 (the (run (replicate 28 0) shape_1x1)))) = 0"
proof -
  let ?st = "the (run (replicate 28 0) shape_1x1)"
  have 1: "barrier_count shape_1x1 + 1 = thread_count shape_1x1"
    "length (deref shape_1x1 (g_twp shape_1x1)) = nat (g_m shape_1x1 * g_n shape_1x1)"
    "live_count shape_1x1 = 0" "curr_gen shape_1x1 = 0"
    unfolding shape_1x1_def example_def by code_simp+
  have 2: "barrier_count ?st + 1 = thread_count ?st"
    "length (deref ?st (g_twp ?st)) = nat (g_m ?st * g_n ?st)"
    "live_count ?st \<noteq> 0" "curr_gen ?st = 0" "g_twp ?st = W2"
    unfolding shape_1x1_def example_def by code_simp+
  show ?thesis
    using Barrier_last_arrival [OF 1(1,2), of 0] Barrier_last_arrival [OF 2(1,2), of 0] 1(3,4) 2(3-)
    by auto
qed

lemma Play_life_entry_defined:
  assumes "g_r st \<noteq> 0" "g_s st \<noteq> 0" "0 \<le> w" "g_m st \<noteq> INT_MIN" "g_n st \<noteq> INT_MIN"
  shows "\<exists>th. Play_life_entry st w = Some th"
  using assms by (simp add: Play_life_entry_def c_div_def c_mod_def)

lemma main_start_Stopped:
  assumes "length argv = 7"
    and "main_start strtol malloc pthread_create argv inp coin junk1 junk2 = Stopped out"
  shows "out = Undefined"
  using assms
  by (simp add: main_start_def Let_def split: option.splits prod.splits if_splits)

lemma those_defined:
  "(\<And>x. x \<in> set xs \<Longrightarrow> f x \<noteq> None) \<Longrightarrow> those (map f xs) = Some (map (\<lambda>x. the (f x)) xs)"
  by (induction xs) (auto split: option.split)

lemma main_start_Started:
  assumes "length argv = 7"
    and "r = int_of_long (strtol (argv ! 1))" "s = int_of_long (strtol (argv ! 2))"
    and "m = int_of_long (strtol (argv ! 3))" "n = int_of_long (strtol (argv ! 4))"
    and "INT_MIN \<le> r * s" "r * s \<le> INT_MAX" "INT_MIN \<le> m * n" "m * n \<le> INT_MAX"
    and "INT_MIN < m" "INT_MIN < n" "malloc 0" "malloc 1"
  shows "\<exists>st. main_start strtol malloc pthread_create argv inp coin junk1 junk2 = Started st"
proof -
  define mg where "mg = int_of_long (strtol (argv ! 5))"
  define b1 where "b1 = map junk1 [0..<nat (m * n)]"
  define b2 where "b2 = (if malloc 2 then map junk2 [0..<nat (m * n)] else [])"
  define ig where "ig = (case argv ! 6 of [] \<Rightarrow> CHR 0x00 | c # _ \<Rightarrow> c)"
  have len: "length b1 = nat (m * n)" by (simp add: b1_def)
  obtain out0 g0 where fill:
    "(if ig = CHR ''i'' then Read_world inp ''Enter generation 0'' b1 m n
      else Gen_world coin ''What's the prob that a cell is alive?'' b1 m n) = Some (out0, g0)"
    "length g0 = nat (m * n)"
    using Read_world_defined [OF len, of inp "''Enter generation 0''"]
      Gen_world_defined [OF len, of coin "''What's the prob that a cell is alive?''"]
    by (cases "ig = CHR ''i''") auto
  have pr: "Print_world ''Generation 0'' g0 m n = Some (render ''Generation 0'' g0 m n)"
    using fill(2) by (rule Print_world_render)
  define st where "st = \<lparr>thread_count = r * s, g_r = r, g_s = s, g_m = m, g_n = n,
                             g_wp = W1, g_twp = W2, max_gens = mg, barrier_count = 0,
                             curr_gen = 0, live_count = 0, break_flag = 0,
                             w1 = g0, w2 = b2,
                             stdout = out0 @ [newline] @ render ''Generation 0'' g0 m n,
                             threads = []\<rparr>"
  have ent: "map_option (launch (pthread_create t)) (Play_life_entry st (int t)) \<noteq> None"
    if "t \<in> set [0..<nat (r * s)]" for t
  proof -
    have "r * s \<noteq> 0" using that by auto
    then have "g_r st \<noteq> 0" "g_s st \<noteq> 0" by (auto simp: st_def)
    moreover have "g_m st \<noteq> INT_MIN" "g_n st \<noteq> INT_MIN" using assms(10,11) by (auto simp: st_def)
    ultimately show ?thesis using Play_life_entry_defined [of st "int t"] by auto
  qed
  obtain ths where th: "those (map (\<lambda>t. map_option (launch (pthread_create t)) (Play_life_entry st (int t)))
                         [0..<nat (r * s)]) = Some ths"
    using those_defined [of "[0..<nat (r * s)]"
                            "\<lambda>t. map_option (launch (pthread_create t)) (Play_life_entry st (int t))"] ent
    by blast
  have "main_start strtol malloc pthread_create argv inp coin junk1 junk2 = Started (st\<lparr>threads := ths\<rparr>)"
    using assms(1,6-9,12,13) fill(1) pr th
    unfolding main_start_def Let_def assms(2-5) [symmetric] mg_def [symmetric] ig_def [symmetric]
    by (auto simp: st_def c_int_def b1_def b2_def split: if_splits)
  then show ?thesis by blast
qed

text \<open>
  Claim C7, as the code has it. The one check at the start of \<open>main\<close> is on the number of
  arguments: when it is not 7, \<open>Usage\<close> prints its text on \<open>stderr\<close> and exits with status
  0, and no thread is launched. With 7 arguments \<open>main\<close> reports nothing, whatever \<open>r\<close>,
  \<open>s\<close>, \<open>m\<close> and \<open>n\<close> are: it either runs into undefined behaviour (as when \<open>r * s\<close>
  or \<open>m * n\<close> overflows the \<open>int\<close>) or goes on, with the values as they were given, to the
  loop that calls \<open>pthread_create\<close> \<open>r * s\<close> times, not at all when \<open>r * s\<close> is not
  positive. It does go on whenever the two products fit an \<open>int\<close>, \<open>m\<close> and \<open>n\<close> are not
  \<open>INT_MIN\<close> and \<open>malloc\<close> returns the handles and the first block. Neither the shape of the
  thread grid nor the size of the world is checked.
\<close>

theorem main_checks_argc_only:
  assumes "r = int_of_long (strtol (argv ! 1))" "s = int_of_long (strtol (argv ! 2))"
    and "m = int_of_long (strtol (argv ! 3))" "n = int_of_long (strtol (argv ! 4))"
  shows "(length argv \<noteq> 7 \<longrightarrow>
      main_start strtol malloc pthread_create argv inp coin junk1 junk2 =
        Stopped (case argv of [] \<Rightarrow> Undefined
                 | prog_name # _ \<Rightarrow> Terminated 0 [] (Usage prog_name)))
   \<and> (length argv = 7 \<longrightarrow>
        (case main_start strtol malloc pthread_create argv inp coin junk1 junk2 of
           Stopped out \<Rightarrow> out = Undefined
         | Started st \<Rightarrow>
             g_r st = r \<and> g_s st = s \<and> g_m st = m \<and> g_n st = n
             \<and> length (threads st) = nat (r * s)))
   \<and> (length argv = 7 \<and> INT_MIN \<le> r * s \<and> r * s \<le> INT_MAX
        \<and> INT_MIN \<le> m * n \<and> m * n \<le> INT_MAX \<and> INT_MIN < m \<and> INT_MIN < n
        \<and> malloc 0 \<and> malloc 1 \<longrightarrow>
        (\<exists>st. main_start strtol malloc pthread_create argv inp coin junk1 junk2 = Started st))"
proof (intro conjI impI)
  assume "length argv \<noteq> 7"
  then show "main_start strtol malloc pthread_create argv inp coin junk1 junk2 =
        Stopped (case argv of [] \<Rightarrow> Undefined
                 | prog_name # _ \<Rightarrow> Terminated 0 [] (Usage prog_name))"
    by (simp add: main_start_def split: list.split)
next
  assume len: "length argv = 7"
  show "case main_start strtol malloc pthread_create argv inp coin junk1 junk2 of
           Stopped out \<Rightarrow> out = Undefined
         | Started st \<Rightarrow>
             g_r st = r \<and> g_s st = s \<and> g_m st = m \<and> g_n st = n
             \<and> length (threads st) = nat (r * s)"
  proof (cases "main_start strtol malloc pthread_create argv inp coin junk1 junk2")
    case (Stopped out)
    then show ?thesis using main_start_Stopped [OF len Stopped] by simp
  next
    case (Started st)
    then show ?thesis using main_start_props(2-5,7,16) [OF Started] assms by simp
  qed
next
  assume "length argv = 7 \<and> INT_MIN \<le> r * s \<and> r * s \<le> INT_MAX
        \<and> INT_MIN \<le> m * n \<and> m * n \<le> INT_MAX \<and> INT_MIN < m \<and> INT_MIN < n
        \<and> malloc 0 \<and> malloc 1"
  then show "\<exists>st. main_start strtol malloc pthread_create argv inp coin junk1 junk2 = Started st"
    using assms by (intro main_start_Started [where r = r and s = s and m = m and n = n]) simp_all
qed

theorem main_checks_argc_only_witness:
  "main_start numeral_value succeeds succeeds [''life'', ''2''] all_X top_row zeros zeros
     = Stopped (Terminated 0 [] (Usage ''life''))
   \<and> (\<exists>st. main_start numeral_value succeeds succeeds world_2x2 all_X top_row zeros zeros
             = Started st)
   \<and> g_m (example world_2x2 top_row) = 2"
proof -
  have v: "int_of_long (numeral_value (world_2x2 ! 1)) = 1"
    "int_of_long (numeral_value (world_2x2 ! 2)) = 1"
    "int_of_long (numeral_value (world_2x2 ! 3)) = 2"
    "int_of_long (numeral_value (world_2x2 ! 4)) = 2"
    "length world_2x2 = 7"
    by (simp_all add: world_2x2_def numeral_value_def int_of_long_def)
  have a: "main_start numeral_value succeeds succeeds [''life'', ''2''] all_X top_row zeros zeros
           = Stopped (Terminated 0 [] (Usage ''life''))"
    using main_checks_argc_only [OF refl refl refl refl,
            of "[''life'', ''2'']" numeral_value succeeds succeeds all_X top_row zeros zeros]
    by simp
  obtain st where st: "main_start numeral_value succeeds succeeds world_2x2 all_X top_row zeros zeros
                       = Started st"
    using main_checks_argc_only [OF v(1-4) [symmetric],
            of succeeds succeeds all_X top_row zeros zeros] v(5)
    by (auto simp: succeeds_def)
  have "g_m st = 2"
    using main_checks_argc_only [OF v(1-4) [symmetric],
            of succeeds succeeds all_X top_row zeros zeros] v(5) st
    by simp
  then show ?thesis using a st by (auto simp: example_def started_def)
qed

theorem main_launches_invalid_configurations:
  "started (main_start numeral_value succeeds succeeds world_2x2 all_X top_row zeros zeros) \<noteq> None
   \<and> g_m (example world_2x2 top_row) = 2 \<and> g_n (example world_2x2 top_row) = 2
   \<and> map pc (threads (example world_2x2 top_row)) = [Top]
   \<and> started (main_start numeral_value succeeds succeeds no_threads all_X top_row zeros zeros) \<noteq> None
   \<and> g_r (example no_threads top_row) * g_s (example no_threads top_row) = 0
   \<and> g_m (example no_threads top_row) = 0"
  unfolding example_def world_2x2_def no_threads_def by code_simp

section \<open>Cells outside the tiles\<close>

lemma cell_index_inj:
  assumes "0 \<le> b" "b < n" "0 \<le> b'" "b' < n" "a * n + b = a' * n + (b'::int)"
  shows "a = a' \<and> b = b'"
proof -
  have n: "n \<noteq> 0" using assms by auto
  have "(a * n + b) div n = a + b div n" "(a' * n + b') div n = a' + b' div n"
    using n by simp_all
  moreover have "b div n = 0" "b' div n = 0" using assms by (simp_all add: div_pos_pos_trivial)
  ultimately have "a = a'" using assms(5) by (metis add.right_neutral)
  then show ?thesis using assms(5) by simp
qed

lemma write_cell_w1:
  "w1 (write_cell c st) =
     (if g_twp st = W1
      then (w1 st)[nat (fst c * g_n st + snd c) := next_state (deref st (g_wp st)) (g_m st) (g_n st) c]
      else w1 st)"
  using write_cell_deref [of c st W1] by (simp add: deref_def)

lemma write_cell_w2:
  "w2 (write_cell c st) =
     (if g_twp st = W2
      then (w2 st)[nat (fst c * g_n st + snd c) := next_state (deref st (g_wp st)) (g_m st) (g_n st) c]
      else w2 st)"
  using write_cell_deref [of c st W2] by (simp add: deref_def)

lemma cell_update_other:
  assumes "0 \<le> i" "0 \<le> j" "j < n" "0 \<le> fst c" "0 \<le> snd c" "snd c < n" "c \<noteq> (i, j)"
  shows "cell (a[nat (fst c * n + snd c) := v]) n (i, j) = cell a n (i, j)"
proof -
  have "fst c * n + snd c \<noteq> i * n + j"
    using cell_index_inj [OF assms(5,6,2,3), of "fst c" i] assms(7) by (cases c) auto
  moreover have "0 \<le> fst c * n + snd c" "0 \<le> i * n + j" using assms by auto
  ultimately have "nat (fst c * n + snd c) \<noteq> nat (i * n + j)" by simp
  then show ?thesis by (simp add: cell_def)
qed

lemma wf_same_tiles:
  assumes "wf st0" "wf st" "g_r st = g_r st0" "g_s st = g_s st0" "g_m st = g_m st0"
    "g_n st = g_n st0" "thread_count st = thread_count st0" "t < length (threads st)"
  shows "tile_cells (threads st ! t) = tile_cells (threads st0 ! t)" "t < length (threads st0)"
proof -
  show t0: "t < length (threads st0)" using assms by (simp add: wf_def)
  show "tile_cells (threads st ! t) = tile_cells (threads st0 ! t)"
    using wf_thread_tile [OF assms(2,8)] wf_thread_tile [OF assms(1) t0] assms(3-6) by simp
qed

lemma frame_inv_step:
  assumes "wf st0" "wf st" "frame_inv st0 st" "step t st = Some st'"
  shows "frame_inv st0 st'"
  using assms(2,4)
proof (cases rule: step_cases)
  case (cell k)
  let ?c = "tile_cells (threads st ! t) ! k"
  have eq: "g_r st = g_r st0" "g_s st = g_s st0" "g_m st = g_m st0" "g_n st = g_n st0"
    "thread_count st = thread_count st0"
    using assms(3) by (simp_all add: frame_inv_def)
  have c: "?c \<in> set (tile_cells (threads st ! t))" using cell(3) by simp
  have cg: "0 \<le> fst ?c \<and> fst ?c < g_m st \<and> 0 \<le> snd ?c \<and> snd ?c < g_n st"
    using wf_cell_in_grid [OF assms(2) cell(1) c] .
  have c0: "?c \<in> set (tile_cells (threads st0 ! t))" "t < length (threads st0)"
    using c wf_same_tiles [OF assms(1,2) eq cell(1)] by simp_all
  have keep: "cell (a[nat (fst ?c * g_n st0 + snd ?c) := v]) (g_n st0) (i, j) = cell a (g_n st0) (i, j)"
    if "0 \<le> i" "0 \<le> j" "j < g_n st0" "list_all (\<lambda>th. (i, j) \<notin> set (tile_cells th)) (threads st0)"
    for i j a v
  proof -
    have "(i, j) \<notin> set (tile_cells (threads st0 ! t))"
      using that(4) c0(2) by (simp add: list_all_length)
    then have "?c \<noteq> (i, j)" using c0(1) by auto
    then show ?thesis
      using cell_update_other [OF that(1-3), of ?c a v] cg eq by simp
  qed
  show ?thesis
    using assms(3) unfolding frame_inv_def cell(4)
    by (simp add: write_cell_w1 write_cell_w2 keep)
qed (use assms(3) in \<open>auto simp: frame_inv_def\<close>)

lemma reachable_frame_inv:
  assumes "main_start strtol malloc pthread_create argv inp coin junk1 junk2 = Started st0"
    and "0 < g_r st0" "0 < g_s st0" "0 \<le> g_m st0" "0 \<le> g_n st0" and "malloc 2"
    and "run sched st0 = Some st"
  shows "frame_inv st0 st"
proof -
  have wf0: "wf st0" using assms(1-6) by (rule main_start_wf)
  have "frame_inv st0 st0"
    using main_start_props(8,9,11) [OF assms(1)] by (simp add: frame_inv_def)
  with frame_inv_step [OF wf0] wf0 show ?thesis using assms(7)
    by (rule run_invariant [where I = "frame_inv st0"])
qed

lemma nth_concat_uniform:
  assumes "\<forall>xs \<in> set xss. length xs = L" "i < length xss" "j < L"
  shows "concat xss ! (i * L + j) = xss ! i ! j"
  using assms
proof (induction xss arbitrary: i)
  case Nil
  then show ?case by simp
next
  case (Cons xs xss)
  show ?case
  proof (cases i)
    case 0
    then show ?thesis using Cons.prems by (simp add: nth_append)
  next
    case (Suc i')
    then have "concat xss ! (i' * L + j) = xss ! i' ! j" using Cons by simp
    moreover have "length xs = L" using Cons.prems by simp
    ultimately show ?thesis using Suc by (simp add: nth_append)
  qed
qed

lemma length_concat_uniform:
  assumes "\<forall>xs \<in> set xss. length xs = L"
  shows "length (concat xss) = length xss * L"
  using assms by (induction xss) simp_all

lemma render_nth:
  assumes "0 \<le> i" "i < m" "0 \<le> j" "j < n"
  shows "render title wp m n ! nat (i * (n + 1) + j)
         = (if cell wp n (i, j) = LIVE then LIVE_IO else DEAD_IO)"
proof -
  let ?row = "\<lambda>i. map (\<lambda>j. if cell wp n (i, j) = LIVE then LIVE_IO else DEAD_IO) [0..n - 1] @ [newline]"
  let ?rows = "map ?row [0..m - 1]"
  let ?L = "nat (n + 1)"
  have len: "\<forall>xs \<in> set ?rows. length xs = ?L" using assms by auto
  have i: "nat i < length ?rows" using assms by simp
  have j: "nat j < ?L" using assms by simp
  have idx: "nat (i * (n + 1) + j) = nat i * ?L + nat j"
    using assms by (simp add: nat_add_distrib nat_mult_distrib)
  have "nat (i * (n + 1) + j) < length (concat ?rows)"
  proof -
    have "nat i * ?L + nat j < (nat i + 1) * ?L" using j by simp
    also have "\<dots> \<le> length ?rows * ?L" using assms by (intro mult_le_mono1) simp
    finally show ?thesis using length_concat_uniform [OF len] idx by simp
  qed
  then have "render title wp m n ! nat (i * (n + 1) + j) = concat ?rows ! nat (i * (n + 1) + j)"
    by (simp add: render_def nth_append)
  also have "\<dots> = ?rows ! nat i ! nat j"
    unfolding idx using len i j by (rule nth_concat_uniform)
  also have "\<dots> = (if cell wp n (i, j) = LIVE then LIVE_IO else DEAD_IO)"
    using assms by (simp add: nth_append)
  finally show ?thesis .
qed

lemma remainder_uncovered:
  assumes "wf st" "0 < g_m st" "0 < g_n st" "\<not> g_r st dvd g_m st \<or> \<not> g_s st dvd g_n st"
  shows "\<exists>i j. 0 \<le> i \<and> i < g_m st \<and> 0 \<le> j \<and> j < g_n st \<and>
               list_all (\<lambda>th. (i, j) \<notin> set (tile_cells th)) (threads st)"
proof -
  let ?r = "g_r st" and ?s = "g_s st" and ?m = "g_m st" and ?n = "g_n st"
  have pos: "0 < ?r" "0 < ?s" using assms(1) by (simp_all add: wf_def)
  have tc: "thread_count st = ?r * ?s" "length (threads st) = nat (thread_count st)"
    using assms(1) by (simp_all add: wf_def)
  have bound: "i < ?r * (?m div ?r) \<and> j < ?s * (?n div ?s)"
    if "t < length (threads st)" "(i, j) \<in> set (tile_cells (threads st ! t))" for t i j
  proof -
    have t: "0 \<le> int t" "int t < ?r * ?s" using that(1) tc by auto
    have "(i, j) \<in> set (tile_cells (tile ?r ?s ?m ?n (int t)))"
      using that wf_thread_tile [OF assms(1) that(1)] by simp
    then have hk: "0 < ?m div ?r" "0 < ?n div ?s" "i div (?m div ?r) = int t div ?s"
      "j div (?n div ?s) = int t mod ?s"
      unfolding in_tile_iff [OF pos t] by auto
    have "int t div ?s < ?r" using rank_div_less [OF pos(2) t] .
    then have "i div (?m div ?r) < ?r" using hk(3) by simp
    then have 1: "i < ?r * (?m div ?r)" by (simp only: int_div_less_iff [OF hk(1)])
    have "int t mod ?s < ?s" using pos by simp
    then have "j div (?n div ?s) < ?s" using hk(4) by simp
    then have "j < ?s * (?n div ?s)" by (simp only: int_div_less_iff [OF hk(2)])
    with 1 show ?thesis by simp
  qed
  have le: "?r * (?m div ?r) \<le> ?m" "?s * (?n div ?s) \<le> ?n"
  proof -
    have "?r * (?m div ?r) + ?m mod ?r = ?m" "?s * (?n div ?s) + ?n mod ?s = ?n"
      "0 \<le> ?m mod ?r" "0 \<le> ?n mod ?s"
      using pos by simp_all
    then show "?r * (?m div ?r) \<le> ?m" "?s * (?n div ?s) \<le> ?n" by linarith+
  qed
  from assms(4) show ?thesis
  proof
    assume "\<not> ?r dvd ?m"
    then have "?r * (?m div ?r) \<noteq> ?m" by (metis dvd_triv_left)
    then have lt: "?r * (?m div ?r) \<le> ?m - 1" using le by simp
    have "list_all (\<lambda>th. (?m - 1, 0) \<notin> set (tile_cells th)) (threads st)"
      unfolding list_all_length using bound [of _ "?m - 1" 0] lt by fastforce
    then show ?thesis using assms(2,3) by (intro exI [of _ "?m - 1"] exI [of _ 0]) simp
  next
    assume "\<not> ?s dvd ?n"
    then have "?s * (?n div ?s) \<noteq> ?n" by (metis dvd_triv_left)
    then have lt: "?s * (?n div ?s) \<le> ?n - 1" using le by simp
    have "list_all (\<lambda>th. (0, ?n - 1) \<notin> set (tile_cells th)) (threads st)"
      unfolding list_all_length using bound [of _ 0 "?n - 1"] lt by fastforce
    then show ?thesis using assms(2,3) by (intro exI [of _ 0] exI [of _ "?n - 1"]) simp
  qed
qed

text \<open>
  Claim C10. A cell \<open>(i, j)\<close> of the world that lies in no worker's tile is written by no
  step of any run: in both blocks it keeps the value it had when the threads were started.
  The current world is the first block in the even generations and the second in the odd
  ones, so that two generations later the current world has at \<open>(i, j)\<close> the value it has
  now. \<open>Count_nbhrs\<close> for a cell of a tile that has \<open>(i, j)\<close> among its neighbours sums the
  values of all the neighbours in the current world, that of \<open>(i, j)\<close> included, and
  \<open>Print_world\<close> prints the current world with the character of \<open>(i, j)\<close> at its place.
  Such cells exist whenever \<open>r\<close> does not divide \<open>m\<close> or \<open>s\<close> does not divide \<open>n\<close>.
  The schedule is arbitrary: a wait of the barrier may return without a broadcast, and the
  two halves of \<open>live_count++\<close> may interleave. (\<open>malloc 2\<close>: the second block has been
  allocated.)
\<close>

theorem uncovered_cells_are_stale:
  assumes "main_start strtol malloc pthread_create argv inp coin junk1 junk2 = Started st0"
    and "0 < g_r st0" "0 < g_s st0" "0 \<le> g_m st0" "0 \<le> g_n st0" and "malloc 2"
    and "run sched st0 = Some st"
    and "0 \<le> i" "i < g_m st0" "0 \<le> j" "j < g_n st0"
    and "list_all (\<lambda>th. (i, j) \<notin> set (tile_cells th)) (threads st0)"
  shows "cell (w1 st) (g_n st) (i, j) = cell (w1 st0) (g_n st) (i, j)
    \<and> cell (w2 st) (g_n st) (i, j) = cell (w2 st0) (g_n st) (i, j)
    \<and> (\<forall>st'. run sched' st = Some st' \<and> curr_gen st' = curr_gen st + 2 \<longrightarrow>
          cell (deref st' (g_wp st')) (g_n st) (i, j) = cell (deref st (g_wp st)) (g_n st) (i, j))
    \<and> (\<forall>a b. list_ex (\<lambda>th. (a, b) \<in> set (tile_cells th)) (threads st)
              \<and> (i, j) \<in> set (nbhr_cells (g_m st) (g_n st) a b) \<longrightarrow>
          Count_nbhrs (deref st (g_wp st)) (g_m st) (g_n st) a b =
            Some (sum_list (map (cell (deref st (g_wp st)) (g_n st))
                                (nbhr_cells (g_m st) (g_n st) a b))))
    \<and> (\<exists>out. Print_world title (deref st (g_wp st)) (g_m st) (g_n st) = Some out
          \<and> out ! nat (i * (g_n st + 1) + j) =
              (if cell (deref st (g_wp st)) (g_n st) (i, j) = LIVE then LIVE_IO else DEAD_IO))
    \<and> ((\<not> g_r st0 dvd g_m st0 \<or> \<not> g_s st0 dvd g_n st0) \<and> 0 < g_m st0 \<and> 0 < g_n st0 \<longrightarrow>
          (\<exists>i' j'. 0 \<le> i' \<and> i' < g_m st0 \<and> 0 \<le> j' \<and> j' < g_n st0
                 \<and> list_all (\<lambda>th. (i', j') \<notin> set (tile_cells th)) (threads st0)))"
proof -
  have wf0: "wf st0" using assms(1-6) by (rule main_start_wf)
  have wf: "wf st" using assms(1-7) by (rule reachable_wf)
  have fr: "frame_inv st0 st" using assms(1-7) by (rule reachable_frame_inv)
  have eq: "g_m st = g_m st0" "g_n st = g_n st0" using fr by (simp_all add: frame_inv_def)
  have keep: "cell (w1 st) (g_n st) (i, j) = cell (w1 st0) (g_n st) (i, j)"
    "cell (w2 st) (g_n st) (i, j) = cell (w2 st0) (g_n st) (i, j)"
    using fr assms(8-12) unfolding frame_inv_def eq by blast+
  have two: "cell (deref st' (g_wp st')) (g_n st) (i, j) = cell (deref st (g_wp st)) (g_n st) (i, j)"
    if "run sched' st = Some st'" "curr_gen st' = curr_gen st + 2" for st'
  proof -
    have "run (sched @ sched') st0 = Some st'" using assms(7) that(1) by (simp add: run_append)
    then have fr': "frame_inv st0 st'" using assms(1-6) by (intro reachable_frame_inv)
    then have keep': "cell (w1 st') (g_n st) (i, j) = cell (w1 st0) (g_n st) (i, j)"
      "cell (w2 st') (g_n st) (i, j) = cell (w2 st0) (g_n st) (i, j)"
      using assms(8-12) unfolding frame_inv_def eq by blast+
    have "g_wp st' = g_wp st" using fr fr' that(2) by (simp add: frame_inv_def)
    then show ?thesis using keep keep' by (cases "g_wp st") (simp_all add: deref_def)
  qed
  have len: "length (deref st b) = nat (g_m st * g_n st)" for b using wf by (rule deref_length)
  have nb: "Count_nbhrs (deref st (g_wp st)) (g_m st) (g_n st) a b =
            Some (sum_list (map (cell (deref st (g_wp st)) (g_n st))
                                (nbhr_cells (g_m st) (g_n st) a b)))"
    if h: "list_ex (\<lambda>th. (a, b) \<in> set (tile_cells th)) (threads st)" for a b
  proof -
    obtain t where t: "t < length (threads st)" "(a, b) \<in> set (tile_cells (threads st ! t))"
      using h unfolding list_ex_length by blast
    have "0 \<le> a \<and> a < g_m st \<and> 0 \<le> b \<and> b < g_n st"
      using wf_cell_in_grid [OF wf t] by simp
    then show ?thesis using len by (intro Count_nbhrs_sum) auto
  qed
  have pr: "Print_world title (deref st (g_wp st)) (g_m st) (g_n st)
            = Some (render title (deref st (g_wp st)) (g_m st) (g_n st))"
    using len by (rule Print_world_render)
  have ch: "render title (deref st (g_wp st)) (g_m st) (g_n st) ! nat (i * (g_n st + 1) + j) =
              (if cell (deref st (g_wp st)) (g_n st) (i, j) = LIVE then LIVE_IO else DEAD_IO)"
    using assms(8-11) unfolding eq by (rule render_nth)
  have ex: "\<exists>i' j'. 0 \<le> i' \<and> i' < g_m st0 \<and> 0 \<le> j' \<and> j' < g_n st0
                 \<and> list_all (\<lambda>th. (i', j') \<notin> set (tile_cells th)) (threads st0)"
    if "\<not> g_r st0 dvd g_m st0 \<or> \<not> g_s st0 dvd g_n st0" "0 < g_m st0" "0 < g_n st0"
    using remainder_uncovered [OF wf0 that(2,3,1)] .
  show ?thesis using keep two nb pr ch ex by blast
qed

theorem uncovered_cells_are_stale_witness:
  "curr_gen (the (run two_rounds shape_2x1_block)) = 2
   \<and> cell (deref (the (run two_rounds shape_2x1_block))
                  (g_wp (the (run two_rounds shape_2x1_block)))) 3 (2, 0)
     = cell (w1 shape_2x1_block) 3 (2, 0)
   \<and> cell (w2 (the (run two_rounds shape_2x1_block))) 3 (2, 0) = zeros 6"
proof -
  let ?argv = "[''life'', ''2'', ''1'', ''3'', ''3'', ''5'', ''g'']"
  let ?st = "the (run two_rounds shape_2x1_block)"
  have 1: "main_start numeral_value succeeds succeeds ?argv all_X block zeros zeros
           = Started shape_2x1_block"
    unfolding shape_2x1_block_def example_def by code_simp
  have 2: "0 < g_r shape_2x1_block" "0 < g_s shape_2x1_block" "0 \<le> g_m shape_2x1_block"
    "0 \<le> g_n shape_2x1_block"
    unfolding shape_2x1_block_def example_def by code_simp+
  have a2: "succeeds 2" by (simp add: succeeds_def)
  have 3: "run [] shape_2x1_block = Some shape_2x1_block" by simp
  have 4: "(0::int) \<le> 2" "2 < g_m shape_2x1_block" "(0::int) \<le> 0" "0 < g_n shape_2x1_block"
    "list_all (\<lambda>th. (2, 0) \<notin> set (tile_cells th)) (threads shape_2x1_block)"
    unfolding shape_2x1_block_def example_def by code_simp+
  have 5: "run two_rounds shape_2x1_block = Some ?st"
    unfolding shape_2x1_block_def example_def two_rounds_def by code_simp
  have 6: "curr_gen ?st = 2" "curr_gen shape_2x1_block = 0" "g_wp shape_2x1_block = W1"
    "g_n shape_2x1_block = 3" "g_n ?st = 3" "cell (w2 shape_2x1_block) 3 (2, 0) = zeros 6"
    unfolding shape_2x1_block_def example_def two_rounds_def by code_simp+
  have a: "cell (deref ?st (g_wp ?st)) 3 (2, 0) = cell (deref shape_2x1_block W1) 3 (2, 0)"
    using uncovered_cells_are_stale [OF 1 2 a2 3 4, of two_rounds] 5 6 by simp
  have b: "cell (w2 ?st) 3 (2, 0) = cell (w2 shape_2x1_block) 3 (2, 0)"
    using uncovered_cells_are_stale [OF 1 2 a2 5 4] 6 by simp
  show ?thesis using a b 6 by (simp add: deref_def)
qed

section \<open>The end of a run\<close>

lemma filter_length_update:
  "t < length xs \<Longrightarrow>
   length (filter P (xs[t := y])) + (if P (xs ! t) then 1 else 0)
   = length (filter P xs) + (if P y then 1 else 0)"
proof (induction xs arbitrary: t)
  case Nil
  then show ?case by simp
next
  case (Cons x xs)
  then show ?case by (cases t) auto
qed

lemma threads_set_pc: "threads (set_pc t p st) = (threads st)[t := (threads st ! t)\<lparr>pc := p\<rparr>]"
  by (simp add: set_pc_def)

lemma count_set_pc:
  assumes "t < length (threads st)"
  shows "int (length (filter (\<lambda>th. Q (pc th)) (threads (set_pc t p st))))
         = int (length (filter (\<lambda>th. Q (pc th)) (threads st)))
           - (if Q (pc (threads st ! t)) then 1 else 0) + (if Q p then 1 else 0)"
  using filter_length_update [OF assms, of "\<lambda>th. Q (pc th)" "(threads st ! t)\<lparr>pc := p\<rparr>"]
  by (simp add: threads_set_pc split: if_splits)

lemma count_broadcast:
  assumes "\<not> Q Waiting" "\<not> Q Woken"
  shows "length (filter (\<lambda>th. Q (pc th)) (threads (broadcast st)))
         = length (filter (\<lambda>th. Q (pc th)) (threads st))"
proof -
  have "length (filter (\<lambda>th. Q (pc th)) (map (\<lambda>th. if pc th = Waiting then th\<lparr>pc := Woken\<rparr> else th) ths))
        = length (filter (\<lambda>th. Q (pc th)) ths)" for ths
    using assms by (induction ths) auto
  then show ?thesis by (simp add: broadcast_def)
qed

lemma count_pos:
  assumes "t < length ths" "P (ths ! t)"
  shows "1 \<le> int (length (filter P ths))"
proof -
  have "ths ! t \<in> set ths" using assms(1) by simp
  then have "filter P ths \<noteq> []" using assms(2) by (auto simp: filter_empty_conv)
  then show ?thesis by (cases "filter P ths") simp_all
qed

lemma list_all_set_pc:
  assumes "list_all Q (threads st)" "t < length (threads st)" "Q ((threads st ! t)\<lparr>pc := p\<rparr>)"
  shows "list_all Q (threads (set_pc t p st))"
  using assms unfolding list_all_length by (simp add: set_pc_nth)

lemma list_all_broadcast:
  assumes "list_all (\<lambda>th. Q (pc th)) (threads st)" "Q Woken"
  shows "list_all (\<lambda>th. Q (pc th)) (threads (broadcast st))"
  using assms unfolding list_all_length by (simp add: broadcast_nth)

lemma in_loop_simps [simp]:
  "in_loop (Tile k)" "in_loop (Load k)" "in_loop (Store k v)"
  "\<not> in_loop Top" "\<not> in_loop Waiting" "\<not> in_loop Woken" "\<not> in_loop Exited" "\<not> in_loop NotCreated"
  by (simp_all add: in_loop_def)

lemma deref_barrier_count [simp]: "deref (st\<lparr>barrier_count := x\<rparr>) b = deref st b"
  by (simp add: deref_def split: buf.split)

lemma no_last_arrival:
  assumes "wf st" "finish_inv st" "t < length (threads st)" "in_loop (pc (threads st ! t))"
    and "barrier_count st + 1 = thread_count st"
  shows "break_flag st = 0 \<and> curr_gen st < max_gens st"
proof -
  let ?A = "\<lambda>th. pc th = Top \<or> in_loop (pc th)" and ?B = "\<lambda>th. in_loop (pc th)"
  have "1 \<le> int (length (filter ?A (threads st)))" "1 \<le> int (length (filter ?B (threads st)))"
    using count_pos [OF assms(3), of ?A] count_pos [OF assms(3), of ?B] assms(4) by simp_all
  then show ?thesis using assms(2,5) by (auto simp: finish_inv_def)
qed

lemma finish_inv_step:
  assumes "wf st" "finish_inv st" "step t st = Some st'"
  shows "finish_inv st'"
proof -
  let ?A = "\<lambda>p. p = Top \<or> in_loop p" and ?B = "in_loop"
  have ne: "g_wp st \<noteq> g_twp st" and len: "int (length (threads st)) = thread_count st"
    using assms(1) by (simp_all add: wf_def)
  note cA = count_set_pc [where Q = ?A] and cB = count_set_pc [where Q = ?B]
  from assms(1,3) show ?thesis
  proof (cases rule: step_cases)
    case idle
    then show ?thesis using assms(2) by simp
  next
    case top
    show ?thesis
      using assms(2) top(1,2) cA [OF top(1)] cB [OF top(1)]
      unfolding finish_inv_def top(3)
      by (auto intro!: list_all_set_pc)
  next
    case (cell k)
    show ?thesis
      using assms(2) ne cell(1,2) cA [of t "write_cell (tile_cells (threads st ! t) ! k) st"]
        cB [of t "write_cell (tile_cells (threads st ! t) ! k) st"]
      unfolding finish_inv_def cell(4)
      by (auto simp: write_cell_deref intro!: list_all_set_pc)
  next
    case (load k)
    show ?thesis
      using assms(2) load(1,2) cA [OF load(1)] cB [OF load(1)]
      unfolding finish_inv_def load(3)
      by (auto intro!: list_all_set_pc)
  next
    case (store k v)
    show ?thesis
      using assms(2) store(1,2) cA [of t "st\<lparr>live_count := v + 1\<rparr>"] cB [of t "st\<lparr>live_count := v + 1\<rparr>"]
      unfolding finish_inv_def store(3)
      by (auto intro!: list_all_set_pc)
  next
    case (wait k)
    show ?thesis
      using assms(2) wait(1,2) cA [of t "st\<lparr>barrier_count := barrier_count st + 1\<rparr>"]
        cB [of t "st\<lparr>barrier_count := barrier_count st + 1\<rparr>"]
      unfolding finish_inv_def wait(5)
      by (auto intro!: list_all_set_pc)
  next
    case (extinct k)
    have nf: "break_flag st = 0" "curr_gen st < max_gens st"
      using no_last_arrival [OF assms(1,2) extinct(1) _ extinct(4)] extinct(2) by simp_all
    have "int (length (filter (\<lambda>th. ?A (pc th)) (threads st'))) =
          int (length (filter (\<lambda>th. ?A (pc th)) (threads st))) - 1"
      unfolding extinct(6)
      using cA [of t "broadcast (leader_extinct st)" Woken] extinct(1,2)
      by (simp add: count_broadcast [where Q = ?A] broadcast_nth)
    moreover have "length (filter (\<lambda>th. ?A (pc th)) (threads st)) \<le> length (threads st)"
      by (rule length_filter_le)
    ultimately have c: "int (length (filter (\<lambda>th. ?A (pc th)) (threads st'))) < thread_count st"
      using len by linarith
    show ?thesis
      using assms(2) nf c unfolding finish_inv_def
      by (simp add: extinct(6))
  next
    case (swap k)
    have nf: "break_flag st = 0" "curr_gen st < max_gens st"
      using no_last_arrival [OF assms(1,2) swap(1) _ swap(4)] swap(2) by simp_all
    have "int (length (filter (\<lambda>th. ?B (pc th)) (threads st'))) =
          int (length (filter (\<lambda>th. ?B (pc th)) (threads st))) - 1"
      unfolding swap(6)
      using cB [of t "broadcast (leader_swap st)" Woken] swap(1,2)
      by (simp add: count_broadcast [where Q = ?B] broadcast_nth)
    moreover have "length (filter (\<lambda>th. ?B (pc th)) (threads st)) \<le> length (threads st)"
      by (rule length_filter_le)
    ultimately have c: "int (length (filter (\<lambda>th. ?B (pc th)) (threads st'))) < thread_count st"
      using len by linarith
    have ex: "list_all (\<lambda>th. pc th \<noteq> Exited) (threads st)"
      using assms(2) nf by (simp add: finish_inv_def)
    have ex': "list_all (\<lambda>th. pc th \<noteq> Exited) (threads st')"
      unfolding swap(6)
      using ex swap(1) list_all_broadcast [where Q = "\<lambda>p. p \<noteq> Exited" and st = "leader_swap st"]
      by (intro list_all_set_pc) simp_all
    show ?thesis
      using assms(2) nf c ex' unfolding finish_inv_def
      by (auto simp: swap(6))
  next
    case spurious
    show ?thesis
      using assms(2) spurious(1,2) cA [OF spurious(1)] cB [OF spurious(1)]
      unfolding finish_inv_def spurious(3)
      by (auto intro!: list_all_set_pc)
  next
    case woken
    show ?thesis
      using assms(2) woken(1,2) cA [OF woken(1)] cB [OF woken(1)]
      unfolding finish_inv_def woken(3)
      by (auto intro!: list_all_set_pc)
  qed
qed

lemma show_int_0: "show_int 0 = ''0''"
  by code_simp

lemma count_none:
  assumes "list_all (\<lambda>th. \<not> P th) ths"
  shows "length (filter P ths) = 0"
  using assms by (induction ths) auto

lemma main_start_finish_inv:
  assumes "main_start strtol malloc pthread_create argv inp coin junk1 junk2 = Started st"
    and "wf st"
  shows "finish_inv st"
proof -
  note p = main_start_props [OF assms(1)]
  have pcs: "list_all (\<lambda>th. pc th = Top \<or> pc th = NotCreated) (threads st)"
    using assms(1) by (rule main_start_pcs)
  then have "list_all (\<lambda>th. \<not> in_loop (pc th)) (threads st)"
    "list_all (\<lambda>th. pc th \<noteq> Exited) (threads st)"
    by (auto simp: list_all_iff)
  then have c: "length (filter (\<lambda>th. in_loop (pc th)) (threads st)) = 0"
    "list_all (\<lambda>th. pc th \<noteq> Exited) (threads st)"
    using count_none [of "\<lambda>th. in_loop (pc th)" "threads st"] by simp_all
  have tc: "0 < thread_count st" using assms(2) by (simp add: wf_def)
  obtain out0 where "stdout st = out0 @ [newline] @ render ''Generation 0'' (w1 st) (g_m st) (g_n st)"
    using main_start_output [OF assms] by blast
  then have "stdout st = (out0 @ [newline]) @ render (''Generation '' @ show_int (curr_gen st))
                                      (deref st (g_wp st)) (g_m st) (g_n st)"
    using p(8,11) by (simp add: show_int_0 deref_def)
  then have "\<exists>pre. stdout st = pre @ render (''Generation '' @ show_int (curr_gen st))
                                      (deref st (g_wp st)) (g_m st) (g_n st)"
    by blast
  then show ?thesis using p(10,11,13) c tc unfolding finish_inv_def by simp
qed

lemma reachable_finish_inv:
  assumes "main_start strtol malloc pthread_create argv inp coin junk1 junk2 = Started st0"
    and "0 < g_r st0" "0 < g_s st0" "0 \<le> g_m st0" "0 \<le> g_n st0" and "malloc 2"
    and "run sched st0 = Some st"
  shows "finish_inv st"
proof -
  have wf0: "wf st0" using assms(1-6) by (rule main_start_wf)
  have "finish_inv st0" using assms(1) wf0 by (rule main_start_finish_inv)
  with finish_inv_step wf0 show ?thesis using assms(7)
    by (rule run_invariant [where I = finish_inv])
qed

text \<open>
  Claim C8, as the code has it. When all workers have returned, \<open>main\<close> joins them and
  returns 0, whatever ended the run. The text on \<open>stdout\<close> ends with the world of the final
  generation under its title; the globals hold the index of the final generation in
  \<open>curr_gen\<close> and the final world behind \<open>wp\<close>. \<open>break_flag\<close> is 1 when the run ended by
  extinction, and then \<open>curr_gen\<close> is below the cap; it is 0 when the run ended at the cap,
  and then \<open>curr_gen\<close> is the cap, or 0 for a negative cap. This holds under every
  schedule, spurious wakeups included. (\<open>malloc 2\<close>: the second block has been allocated.)
\<close>

theorem final_state_tells_extinction_from_cap:
  assumes "main_start strtol malloc pthread_create argv inp coin junk1 junk2 = Started st0"
    and "0 < g_r st0" "0 < g_s st0" "0 \<le> g_m st0" "0 \<le> g_n st0" and "malloc 2"
    and "run sched st0 = Some st"
    and "list_all (\<lambda>th. pc th = Exited) (threads st)"
  shows "main strtol malloc pthread_create argv inp coin junk1 junk2 sched
           = Terminated 0 (stdout st) []
    \<and> (\<exists>pre out. Print_world (''Generation '' @ show_int (curr_gen st)) (deref st (g_wp st))
                              (g_m st) (g_n st) = Some out
                  \<and> stdout st = pre @ out)
    \<and> ((break_flag st = 1 \<and> curr_gen st < max_gens st)
        \<or> (break_flag st = 0 \<and> curr_gen st = max 0 (max_gens st)))"
proof -
  have wf: "wf st" using assms(1-7) by (rule reachable_wf)
  have fin: "finish_inv st" using assms(1-7) by (rule reachable_finish_inv)
  have "main strtol malloc pthread_create argv inp coin junk1 junk2 sched
        = Terminated 0 (stdout st) []"
    using assms(1,7) join_threads_Exited [OF assms(8)] by (simp add: main_def)
  moreover have "Print_world (''Generation '' @ show_int (curr_gen st)) (deref st (g_wp st))
                              (g_m st) (g_n st)
                 = Some (render (''Generation '' @ show_int (curr_gen st)) (deref st (g_wp st))
                              (g_m st) (g_n st))"
    using deref_length [OF wf] by (rule Print_world_render)
  moreover have "(break_flag st = 1 \<and> curr_gen st < max_gens st)
        \<or> (break_flag st = 0 \<and> curr_gen st = max 0 (max_gens st))"
  proof (cases "break_flag st = 1")
    case True
    then show ?thesis using fin by (simp add: finish_inv_def)
  next
    case False
    then have f: "break_flag st = 0" using fin by (auto simp: finish_inv_def)
    have "0 < length (threads st)" using wf by (simp add: wf_def)
    then obtain th where th: "th \<in> set (threads st)" by (cases "threads st") auto
    then have "pc th = Exited" using assms(8) by (simp add: list_all_iff)
    then have "\<not> list_all (\<lambda>th. pc th \<noteq> Exited) (threads st)"
      using th by (auto simp: list_all_iff)
    then have "max_gens st \<le> curr_gen st" using fin f by (auto simp: finish_inv_def)
    then show ?thesis using f fin by (auto simp: finish_inv_def)
  qed
  moreover have "\<exists>pre. stdout st = pre @ render (''Generation '' @ show_int (curr_gen st))
                                      (deref st (g_wp st)) (g_m st) (g_n st)"
    using fin by (simp add: finish_inv_def)
  ultimately show ?thesis by simp
qed

theorem final_state_tells_extinction_from_cap_witness:
  "main numeral_value succeeds succeeds cap_1 all_X top_row zeros zeros (replicate 50 0)
     = Terminated 0 (stdout (the (run (replicate 50 0) (example cap_1 top_row)))) []
   \<and> break_flag (the (run (replicate 50 0) (example cap_1 top_row))) = 0
   \<and> curr_gen (the (run (replicate 50 0) (example cap_1 top_row))) = 1"
proof -
  let ?init = "example cap_1 top_row"
  let ?st = "the (run (replicate 50 0) ?init)"
  have 1: "main_start numeral_value succeeds succeeds cap_1 all_X top_row zeros zeros
           = Started ?init"
    unfolding example_def cap_1_def by code_simp
  have 2: "0 < g_r ?init" "0 < g_s ?init" "0 \<le> g_m ?init" "0 \<le> g_n ?init"
    unfolding example_def cap_1_def by code_simp+
  have m: "succeeds 2" by (simp add: succeeds_def)
  have 3: "run (replicate 50 0) ?init = Some ?st"
    unfolding example_def cap_1_def by code_simp
  have 4: "list_all (\<lambda>th. pc th = Exited) (threads ?st)" "break_flag ?st = 0" "max_gens ?st = 1"
    unfolding example_def cap_1_def by code_simp+
  show ?thesis
    using final_state_tells_extinction_from_cap [OF 1 2 m 3 4(1)] 4(2,3) by simp
qed

theorem main_returns_the_same_for_extinction_and_cap:
  "main numeral_value succeeds succeeds cap_1 all_X top_row zeros zeros (replicate 50 0)
     = main numeral_value succeeds succeeds cap_2 all_X top_row zeros zeros (replicate 50 0)
   \<and> exit_status (main numeral_value succeeds succeeds cap_1 all_X top_row zeros zeros
                        (replicate 50 0)) = Some 0
   \<and> break_flag (the (run (replicate 50 0) (example cap_1 top_row))) = 0
   \<and> break_flag (the (run (replicate 50 0) (example cap_2 top_row))) = 1"
  unfolding example_def cap_1_def cap_2_def by code_simp

section \<open>The barrier without spurious wakeups\<close>

lemma all_but_one:
  assumes "length (filter P xs) + 1 = length xs" "t < length xs" "\<not> P (xs ! t)"
    and "t' < length xs" "t' \<noteq> t"
  shows "P (xs ! t')"
proof (rule ccontr)
  assume n: "\<not> P (xs ! t')"
  have "length (filter P xs) + length (filter (\<lambda>x. \<not> P x) xs) = length xs"
    by (rule sum_length_filter_compl)
  then have "length (filter (\<lambda>x. \<not> P x) xs) = 1" using assms(1) by simp
  then have c: "card {i. i < length xs \<and> \<not> P (xs ! i)} = 1"
    by (simp add: length_filter_conv_card)
  have "{t, t'} \<subseteq> {i. i < length xs \<and> \<not> P (xs ! i)}" using assms n by auto
  then have "card {t, t'} \<le> card {i. i < length xs \<and> \<not> P (xs ! i)}"
    by (intro card_mono) auto
  then show False using c assms(5) by simp
qed

lemma waiting_update:
  assumes "t < length ths"
  shows "int (length (filter (\<lambda>th. pc th = Waiting) (ths[t := (ths ! t)\<lparr>pc := p\<rparr>])))
         = int (length (filter (\<lambda>th. pc th = Waiting) ths))
           - (if pc (ths ! t) = Waiting then 1 else 0) + (if p = Waiting then 1 else 0)"
  using filter_length_update [OF assms, of "\<lambda>th. pc th = Waiting" "(ths ! t)\<lparr>pc := p\<rparr>"]
  by (simp split: if_splits)

lemma all_woken:
  assumes "int (length (filter (\<lambda>th. pc th = Waiting) (threads st))) + 1 = int (length (threads st))"
    and "t < length (threads st)" "pc (threads st ! t) \<noteq> Waiting"
    and "threads s = threads st"
  shows "list_all (\<lambda>th. pc th = Woken) (threads (set_pc t Woken (broadcast s)))"
  unfolding list_all_length
proof (intro allI impI)
  fix t' assume "t' < length (threads (set_pc t Woken (broadcast s)))"
  then have t': "t' < length (threads st)" using assms(4) by simp
  have "length (filter (\<lambda>th. pc th = Waiting) (threads st)) + 1 = length (threads st)"
    using assms(1) by linarith
  then have "pc (threads st ! t') = Waiting" if "t' \<noteq> t"
    using all_but_one [of "\<lambda>th. pc th = Waiting" "threads st" t t'] assms(2,3) t' that by simp
  then show "pc (threads (set_pc t Woken (broadcast s)) ! t') = Woken"
    using t' assms(4) by (simp add: set_pc_nth broadcast_nth)
qed

lemma none_waiting:
  assumes "list_all (\<lambda>th. pc th = Woken) ths"
  shows "length (filter (\<lambda>th. pc th = Waiting) ths) = 0"
  using assms by (induction ths) auto

lemma sync_inv_step:
  assumes "wf st" "sync_inv st" "step t st = Some st'"
    and "\<not> (t < length (threads st) \<and> pc (threads st ! t) = Waiting)"
  shows "sync_inv st'"
  using assms(1,3)
proof (cases rule: step_cases)
  case idle
  then show ?thesis using assms(2) by simp
next
  case top
  have nf: "break_flag st = 0"
    using assms(2) top(1,2) unfolding sync_inv_def list_all_length by auto
  show ?thesis
    unfolding sync_inv_def top(3)
    using assms(2) nf top(1,2)
    by (auto simp: sync_inv_def waiting_update threads_set_pc list_all_length nth_list_update)
next
  case (cell k)
  have nf: "break_flag st = 0" "curr_gen st < max_gens st"
    using assms(2) cell(1,2) unfolding sync_inv_def list_all_length by fastforce+
  have thr: "threads (write_cell c st) = threads st" for c by simp
  show ?thesis
    unfolding sync_inv_def cell(4)
    using assms(2) nf cell(1,2)
    by (auto simp: sync_inv_def waiting_update threads_set_pc list_all_length nth_list_update)
next
  case (load k)
  have nf: "break_flag st = 0" "curr_gen st < max_gens st"
    using assms(2) load(1,2) unfolding sync_inv_def list_all_length by fastforce+
  show ?thesis
    unfolding sync_inv_def load(3)
    using assms(2) nf load(1,2)
    by (auto simp: sync_inv_def waiting_update threads_set_pc list_all_length nth_list_update)
next
  case (store k v)
  have nf: "break_flag st = 0" "curr_gen st < max_gens st"
    using assms(2) store(1,2) unfolding sync_inv_def list_all_length by fastforce+
  show ?thesis
    unfolding sync_inv_def store(3)
    using assms(2) nf store(1,2)
    by (auto simp: sync_inv_def waiting_update threads_set_pc list_all_length nth_list_update)
next
  case spurious
  then show ?thesis using assms(4) by simp
next
  case (wait k)
  have nf: "break_flag st = 0" "curr_gen st < max_gens st"
    using assms(2) wait(1,2) unfolding sync_inv_def list_all_length by fastforce+
  show ?thesis
    unfolding sync_inv_def wait(5)
    using assms(2) nf wait(1,2)
    by (auto simp: sync_inv_def waiting_update threads_set_pc list_all_length nth_list_update)
next
  case (extinct k)
  have nf: "break_flag st = 0" "curr_gen st < max_gens st"
    using assms(2) extinct(1,2) unfolding sync_inv_def list_all_length by fastforce+
  have len: "int (length (threads st)) = thread_count st"
    using assms(1) by (simp add: wf_def)
  have "int (length (filter (\<lambda>th. pc th = Waiting) (threads st))) + 1 = int (length (threads st))"
    using assms(2) extinct(4) len by (simp add: sync_inv_def)
  then have w: "list_all (\<lambda>th. pc th = Woken) (threads (set_pc t Woken (broadcast (leader_extinct st))))"
    using extinct(1,2) by (intro all_woken) auto
  show ?thesis
    unfolding sync_inv_def extinct(6)
    using nf none_waiting [OF w] w by (auto elim!: list.pred_mono_strong)
next
  case (swap k)
  have nf: "break_flag st = 0" "curr_gen st < max_gens st"
    using assms(2) swap(1,2) unfolding sync_inv_def list_all_length by fastforce+
  have len: "int (length (threads st)) = thread_count st"
    using assms(1) by (simp add: wf_def)
  have "int (length (filter (\<lambda>th. pc th = Waiting) (threads st))) + 1 = int (length (threads st))"
    using assms(2) swap(4) len by (simp add: sync_inv_def)
  then have w: "list_all (\<lambda>th. pc th = Woken) (threads (set_pc t Woken (broadcast (leader_swap st))))"
    using swap(1,2) by (intro all_woken) auto
  show ?thesis
    unfolding sync_inv_def swap(6)
    using nf none_waiting [OF w] w by (auto elim!: list.pred_mono_strong)
next
  case woken
  show ?thesis
    unfolding sync_inv_def woken(3)
    using assms(2) woken(1,2)
    by (auto simp: sync_inv_def waiting_update threads_set_pc list_all_length nth_list_update)
qed

lemma main_start_sync_inv:
  assumes "main_start strtol malloc pthread_create argv inp coin junk1 junk2 = Started st"
  shows "sync_inv st"
proof -
  have "list_all (\<lambda>th. pc th = Top \<or> pc th = NotCreated) (threads st)"
    using assms by (rule main_start_pcs)
  then have a: "list_all (\<lambda>th. \<not> pc th = Waiting) (threads st)"
    "list_all (\<lambda>th. pc th = Woken \<or> pc th = Top \<or> pc th = Exited \<or> pc th = NotCreated) (threads st)"
    "list_all (\<lambda>th. pc th \<noteq> Exited) (threads st)"
    by (auto simp: list_all_iff)
  have "length (filter (\<lambda>th. pc th = Waiting) (threads st)) = 0"
    using a(1) by (rule count_none)
  then show ?thesis using a(2,3) using main_start_props(10,13) [OF assms] by (simp add: sync_inv_def)
qed

section \<open>The count of live cells\<close>

lemma sum_list_map_nth_change:
  fixes f :: "'a \<Rightarrow> int" and g :: "'b \<Rightarrow> int"
  assumes "length ys = length xs" "t < length xs"
    and "\<And>i. i < length xs \<Longrightarrow> i \<noteq> t \<Longrightarrow> g (ys ! i) = f (xs ! i)"
  shows "sum_list (map g ys) = sum_list (map f xs) - f (xs ! t) + g (ys ! t)"
proof -
  let ?A = "{0..<length xs}"
  have t: "t \<in> ?A" "finite ?A" using assms(2) by auto
  have "sum_list (map g ys) = (\<Sum>i \<in> ?A. g (ys ! i))"
    using assms(1) by (simp add: sum_list_sum_nth)
  also have "\<dots> = g (ys ! t) + (\<Sum>i \<in> ?A - {t}. g (ys ! i))"
    using t by (simp add: sum.remove)
  also have "(\<Sum>i \<in> ?A - {t}. g (ys ! i)) = (\<Sum>i \<in> ?A - {t}. f (xs ! i))"
    using assms(3) by (intro sum.cong) auto
  finally have 1: "sum_list (map g ys) = g (ys ! t) + (\<Sum>i \<in> ?A - {t}. f (xs ! i))" .
  have "sum_list (map f xs) = (\<Sum>i \<in> ?A. f (xs ! i))"
    by (simp add: sum_list_sum_nth)
  also have "\<dots> = f (xs ! t) + (\<Sum>i \<in> ?A - {t}. f (xs ! i))"
    using t by (simp add: sum.remove)
  finally show ?thesis using 1 by simp
qed

lemma live_in_update_other:
  assumes "0 \<le> fst c" "0 \<le> snd c" "snd c < n"
    and "\<And>c'. c' \<in> set cs \<Longrightarrow> 0 \<le> fst c' \<and> 0 \<le> snd c' \<and> snd c' < n \<and> c' \<noteq> c"
  shows "live_in (a[nat (fst c * n + snd c) := v]) n cs = live_in a n cs"
proof -
  have "cell (a[nat (fst c * n + snd c) := v]) n c' = cell a n c'" if "c' \<in> set cs" for c'
    using cell_update_other [of "fst c'" "snd c'" n c a v] assms(1-3) assms(4) [OF that]
    by (metis prod.collapse)
  then have "filter (\<lambda>c'. cell (a[nat (fst c * n + snd c) := v]) n c' = LIVE) cs
             = filter (\<lambda>c'. cell a n c' = LIVE) cs"
    by (intro filter_cong) auto
  then show ?thesis by (simp add: live_in_def)
qed

lemma cell_update_same:
  "nat (fst c * n + snd c) < length a \<Longrightarrow> cell (a[nat (fst c * n + snd c) := v]) n c = v"
  by (cases c) (simp add: cell_def)

lemma live_in_append: "live_in a n (xs @ ys) = live_in a n xs + live_in a n ys"
  by (simp add: live_in_def)

lemma live_in_Nil [simp]: "live_in a n [] = 0"
  by (simp add: live_in_def)

lemma wf_tiles_disjoint:
  assumes "wf st" "t < length (threads st)" "t' < length (threads st)" "t' \<noteq> t"
    and "c \<in> set (tile_cells (threads st ! t))"
  shows "c \<notin> set (tile_cells (threads st ! t'))"
proof
  assume c': "c \<in> set (tile_cells (threads st ! t'))"
  have pos: "0 < g_r st" "0 < g_s st" and tc: "length (threads st) = nat (g_r st * g_s st)"
    using assms(1) by (simp_all add: wf_def)
  have "int t = int t'"
    using assms(2,3,5) c' tc wf_thread_tile [OF assms(1)]
    by (intro tiles_disjoint [OF pos, where c = c and m = "g_m st" and n = "g_n st"]) auto
  then show False using assms(4) by simp
qed

lemma set_counted_cells: "set (counted_cells th) \<subseteq> set (tile_cells th)"
  by (auto simp: counted_cells_def dest: in_set_takeD split: pc.split)

lemma counted_cells_simps [simp]:
  "counted_cells (th\<lparr>pc := Top\<rparr>) = []" "counted_cells (th\<lparr>pc := Woken\<rparr>) = []"
  "counted_cells (th\<lparr>pc := Exited\<rparr>) = []" "counted_cells (th\<lparr>pc := Waiting\<rparr>) = tile_cells th"
  "counted_cells (th\<lparr>pc := Tile k\<rparr>) = take k (tile_cells th)"
  "counted_cells (th\<lparr>pc := Load k\<rparr>) = take k (tile_cells th)"
  "counted_cells (th\<lparr>pc := Store k v\<rparr>) = take k (tile_cells th)"
  by (simp_all add: counted_cells_def)

lemma done_cells_simps [simp]:
  "done_cells (th\<lparr>pc := Top\<rparr>) = []" "done_cells (th\<lparr>pc := Woken\<rparr>) = []"
  "done_cells (th\<lparr>pc := Exited\<rparr>) = []" "done_cells (th\<lparr>pc := Waiting\<rparr>) = tile_cells th"
  "done_cells (th\<lparr>pc := Tile k\<rparr>) = take k (tile_cells th)"
  "done_cells (th\<lparr>pc := Load k\<rparr>) = take (Suc k) (tile_cells th)"
  "done_cells (th\<lparr>pc := Store k v\<rparr>) = take (Suc k) (tile_cells th)"
  by (simp_all add: done_cells_def)

lemma live_in_nonneg: "0 \<le> live_in a n cs"
  by (simp add: live_in_def)

lemma counted_nonneg: "0 \<le> counted st"
  unfolding counted_def by (rule sum_list_nonneg) (auto simp: live_in_nonneg)

lemma counted_all_woken:
  assumes "list_all (\<lambda>th. pc th = Woken) (threads st)"
  shows "counted st = 0"
proof -
  have "sum_list (map (\<lambda>th. live_in a n (counted_cells th)) ths) = 0"
    if "list_all (\<lambda>th. pc th = Woken) ths" for a n ths
    using that by (induction ths) (simp_all add: counted_cells_def)
  then show ?thesis using assms by (simp add: counted_def)
qed

lemma counted_start:
  assumes "list_all (\<lambda>th. pc th = Top \<or> pc th = NotCreated) (threads st)"
  shows "counted st = 0"
proof -
  have "sum_list (map (\<lambda>th. live_in a n (counted_cells th)) ths) = 0"
    if "list_all (\<lambda>th. pc th = Top \<or> pc th = NotCreated) ths" for a n ths
    using that by (induction ths) (auto simp: counted_cells_def)
  then show ?thesis using assms by (simp add: counted_def)
qed

text \<open>A step that changes the place of one thread and leaves the next buffer alone.\<close>

lemma counted_set_pc:
  assumes "t < length (threads st)"
    and "deref st' (g_twp st') = deref st (g_twp st)" "g_n st' = g_n st"
    and "threads st' = threads (set_pc t p st)"
  shows "counted st' = counted st
           - live_in (deref st (g_twp st)) (g_n st) (counted_cells (threads st ! t))
           + live_in (deref st (g_twp st)) (g_n st) (counted_cells ((threads st ! t)\<lparr>pc := p\<rparr>))"
proof -
  let ?f = "\<lambda>th. live_in (deref st (g_twp st)) (g_n st) (counted_cells th)"
  have "sum_list (map ?f (threads st')) = sum_list (map ?f (threads st)) - ?f (threads st ! t)
          + ?f (threads st' ! t)"
    using assms(1,4) by (intro sum_list_map_nth_change) (simp_all add: set_pc_nth)
  then show ?thesis using assms by (simp add: counted_def set_pc_nth)
qed

lemma nth_not_in_take:
  assumes "distinct xs" "k < length xs"
  shows "xs ! k \<notin> set (take k xs)"
proof
  assume "xs ! k \<in> set (take k xs)"
  then obtain i where "i < k" "take k xs ! i = xs ! k"
    by (auto simp: in_set_conv_nth)
  then have "xs ! i = xs ! k" "i < k" by simp_all
  then show False using assms by (simp add: nth_eq_iff_index_eq)
qed

text \<open>The store of the inner loop: the count of the completed increments is as before.\<close>

lemma counted_cell:
  assumes "wf st" "t < length (threads st)" "pc (threads st ! t) = Tile k"
    and "k < length (tile_cells (threads st ! t))"
    and "v = next_state (deref st (g_wp st)) (g_m st) (g_n st) (tile_cells (threads st ! t) ! k)"
  shows "counted (set_pc t (if v = LIVE then Load k else Tile (Suc k))
                        (write_cell (tile_cells (threads st ! t) ! k) st)) = counted st"
proof -
  let ?th = "threads st ! t"
  let ?c = "tile_cells ?th ! k"
  let ?n = "g_n st"
  let ?B = "deref st (g_twp st)"
  let ?B' = "?B[nat (fst ?c * ?n + snd ?c) := v]"
  let ?p = "if v = LIVE then Load k else Tile (Suc k)"
  let ?st' = "set_pc t ?p (write_cell ?c st)"
  let ?f = "\<lambda>th. live_in ?B ?n (counted_cells th)"
  let ?g = "\<lambda>th. live_in ?B' ?n (counted_cells th)"
  have c: "?c \<in> set (tile_cells ?th)" using assms(4) by simp
  have grid: "\<And>t' c'. t' < length (threads st) \<Longrightarrow> c' \<in> set (tile_cells (threads st ! t')) \<Longrightarrow>
                0 \<le> fst c' \<and> fst c' < g_m st \<and> 0 \<le> snd c' \<and> snd c' < ?n"
    using wf_cell_in_grid [OF assms(1)] by blast
  have cg: "0 \<le> fst ?c" "fst ?c < g_m st" "0 \<le> snd ?c" "snd ?c < ?n"
    using grid [OF assms(2) c] by auto
  have B': "deref ?st' (g_twp ?st') = ?B'" by (simp add: write_cell_deref assms(5))
  have thr: "threads ?st' = (threads st)[t := ?th\<lparr>pc := ?p\<rparr>]"
    by (simp add: threads_set_pc)
  have other: "?g (threads ?st' ! i) = ?f (threads st ! i)"
    if i: "i < length (threads st)" "i \<noteq> t" for i
  proof -
    have "c' \<noteq> ?c" if "c' \<in> set (counted_cells (threads st ! i))" for c'
      using wf_tiles_disjoint [OF assms(1,2) i c] that set_counted_cells by blast
    moreover have "0 \<le> fst c' \<and> 0 \<le> snd c' \<and> snd c' < ?n"
      if "c' \<in> set (counted_cells (threads st ! i))" for c'
      using grid [OF i(1), of c'] that set_counted_cells by blast
    ultimately have "?g (threads st ! i) = ?f (threads st ! i)"
      using cg by (intro live_in_update_other) simp_all
    then show ?thesis using i by (simp add: thr)
  qed
  have sum: "sum_list (map ?g (threads ?st')) =
             sum_list (map ?f (threads st)) - ?f ?th + ?g (threads ?st' ! t)"
    using assms(2) other by (intro sum_list_map_nth_change) (simp_all add: thr)
  have tk: "take (Suc k) (tile_cells ?th) = take k (tile_cells ?th) @ [?c]"
    using assms(4) by (rule take_Suc_conv_app_nth)
  have notin: "?c \<notin> set (take k (tile_cells ?th))"
    using distinct_tile_cells assms(4) by (rule nth_not_in_take)
  have prev: "live_in ?B' ?n (take k (tile_cells ?th)) = live_in ?B ?n (take k (tile_cells ?th))"
  proof (rule live_in_update_other)
    fix c' assume c': "c' \<in> set (take k (tile_cells ?th))"
    then have "c' \<in> set (tile_cells ?th)" by (rule in_set_takeD)
    then show "0 \<le> fst c' \<and> 0 \<le> snd c' \<and> snd c' < ?n \<and> c' \<noteq> ?c"
      using grid [OF assms(2)] c' notin by auto
  qed (use cg in auto)
  have idx: "nat (fst ?c * ?n + snd ?c) < length ?B"
    using cell_index [OF cg] deref_length [OF assms(1), of "g_twp st"] by simp
  have new: "live_in ?B' ?n [?c] = (if v = LIVE then 1 else 0)"
    using cell_update_same [OF idx, of v] by (simp add: live_in_def)
  have "?f ?th = live_in ?B ?n (take k (tile_cells ?th))"
    using assms(3) by (simp add: counted_cells_def)
  moreover have "?g (threads ?st' ! t) = live_in ?B ?n (take k (tile_cells ?th))"
  proof (cases "v = LIVE")
    case True
    then have "?g (threads ?st' ! t) = live_in ?B' ?n (take k (tile_cells ?th))"
      using assms(2) by (simp add: threads_set_pc)
    then show ?thesis using prev by simp
  next
    case False
    then have "?g (threads ?st' ! t) = live_in ?B' ?n (take k (tile_cells ?th) @ [?c])"
      using assms(2) by (simp add: threads_set_pc tk)
    then show ?thesis using prev new False by (simp add: live_in_append)
  qed
  ultimately have "sum_list (map ?g (threads ?st')) = sum_list (map ?f (threads st))"
    using sum by simp
  then show ?thesis unfolding counted_def B' by simp
qed

lemma pending_cell:
  assumes "wf st" "t < length (threads st)" "k < length (tile_cells (threads st ! t))"
    and "t' < length (threads st)" "k' < length (tile_cells (threads st ! t'))"
  shows "cell (deref (write_cell (tile_cells (threads st ! t) ! k) st) (g_twp st)) (g_n st)
              (tile_cells (threads st ! t') ! k')
         = (if t' = t \<and> k' = k
            then next_state (deref st (g_wp st)) (g_m st) (g_n st) (tile_cells (threads st ! t) ! k)
            else cell (deref st (g_twp st)) (g_n st) (tile_cells (threads st ! t') ! k'))"
proof -
  let ?c = "tile_cells (threads st ! t) ! k" and ?c' = "tile_cells (threads st ! t') ! k'"
  have c: "?c \<in> set (tile_cells (threads st ! t))" "?c' \<in> set (tile_cells (threads st ! t'))"
    using assms(3,5) by simp_all
  have cg: "0 \<le> fst ?c \<and> fst ?c < g_m st \<and> 0 \<le> snd ?c \<and> snd ?c < g_n st"
    "0 \<le> fst ?c' \<and> fst ?c' < g_m st \<and> 0 \<le> snd ?c' \<and> snd ?c' < g_n st"
    using wf_cell_in_grid [OF assms(1,2) c(1)] wf_cell_in_grid [OF assms(1,4) c(2)] by simp_all
  have idx: "nat (fst ?c * g_n st + snd ?c) < length (deref st (g_twp st))"
    using cell_index [of "fst ?c" "g_m st" "snd ?c" "g_n st"] cg(1)
      deref_length [OF assms(1), of "g_twp st"] by simp
  show ?thesis
  proof (cases "?c' = ?c")
    case True
    have "t' = t"
    proof (rule ccontr)
      assume "t' \<noteq> t"
      then show False using wf_tiles_disjoint [OF assms(1,2,4) _ c(1)] c(2) True by simp
    qed
    moreover have "k' = k"
      using True \<open>t' = t\<close> assms(3,5) distinct_tile_cells [of "threads st ! t"]
      by (simp add: nth_eq_iff_index_eq)
    ultimately show ?thesis
      using cell_update_same [OF idx] by (simp add: write_cell_deref)
  next
    case False
    then have "\<not> (t' = t \<and> k' = k)" by auto
    moreover have "cell ((deref st (g_twp st))[nat (fst ?c * g_n st + snd ?c) := x]) (g_n st) ?c'
                   = cell (deref st (g_twp st)) (g_n st) ?c'" for x
      using cell_update_other [of "fst ?c'" "snd ?c'" "g_n st" ?c "deref st (g_twp st)" x]
        cg False by simp
    ultimately show ?thesis by (auto simp: write_cell_deref)
  qed
qed

lemma live_inv_pc:
  assumes "live_inv st" "t < length (threads st)"
    and "counted_cells ((threads st ! t)\<lparr>pc := p\<rparr>) = counted_cells (threads st ! t)"
    and "live_count st' = live_count st" "deref st' (g_twp st') = deref st (g_twp st)"
    and "g_n st' = g_n st" "threads st' = threads (set_pc t p st)"
    and "\<And>k. p = Load k \<or> (\<exists>v. p = Store k v) \<Longrightarrow>
           k < length (tile_cells (threads st ! t)) \<and>
           cell (deref st (g_twp st)) (g_n st) (tile_cells (threads st ! t) ! k) = LIVE"
    and "\<And>k v. p = Store k v \<Longrightarrow> 0 \<le> v"
  shows "live_inv st'"
proof -
  have c: "counted st' = counted st"
    using counted_set_pc [OF assms(2,5,6,7)] assms(3) by simp
  have nth: "threads st' ! i = (if i = t then (threads st ! t)\<lparr>pc := p\<rparr> else threads st ! i)"
    if "i < length (threads st)" for i
    using that assms(7) by (simp add: set_pc_nth)
  have len: "length (threads st') = length (threads st)" using assms(7) by simp
  show ?thesis
    unfolding live_inv_def c len assms(4,5,6)
  proof (intro conjI allI impI)
    show "0 \<le> live_count st" "(live_count st = 0) = (counted st = 0)"
      using assms(1) by (simp_all add: live_inv_def)
  next
    fix i k assume i: "i < length (threads st)"
      and h: "pc (threads st' ! i) = Load k \<or> (\<exists>v. pc (threads st' ! i) = Store k v)"
    show "k < length (tile_cells (threads st' ! i))"
      "cell (deref st (g_twp st)) (g_n st) (tile_cells (threads st' ! i) ! k) = LIVE"
      using assms(1) assms(8) [of k] i h unfolding live_inv_def nth [OF i]
      by (auto split: if_splits)
  next
    fix i k v assume i: "i < length (threads st)" and h: "pc (threads st' ! i) = Store k v"
    show "0 \<le> v"
      using assms(1) assms(9) [of k v] i h unfolding live_inv_def nth [OF i]
      by (auto split: if_splits)
  qed
qed

lemma live_inv_all_woken:
  assumes "list_all (\<lambda>th. pc th = Woken) (threads st)" "live_count st = 0"
  shows "live_inv st"
proof -
  have "pc (threads st ! i) = Woken" if "i < length (threads st)" for i
    using assms(1) that by (simp add: list_all_length)
  then show ?thesis using counted_all_woken [OF assms(1)] assms(2) by (simp add: live_inv_def)
qed

lemma live_inv_cell:
  assumes "wf st" "live_inv st" "t < length (threads st)" "pc (threads st ! t) = Tile k"
    and "k < length (tile_cells (threads st ! t))"
    and "v = next_state (deref st (g_wp st)) (g_m st) (g_n st) (tile_cells (threads st ! t) ! k)"
    and "st' = set_pc t (if v = LIVE then Load k else Tile (Suc k))
                      (write_cell (tile_cells (threads st ! t) ! k) st)"
  shows "live_inv st'"
proof -
  let ?c = "tile_cells (threads st ! t) ! k"
  have c: "counted st' = counted st"
    unfolding assms(7) using assms(1,3,4,5,6) by (rule counted_cell)
  have nth: "threads st' ! i = (if i = t then (threads st ! t)\<lparr>pc := (if v = LIVE then Load k else Tile (Suc k))\<rparr>
                                else threads st ! i)"
    if "i < length (threads st)" for i
    using that by (simp add: assms(7) set_pc_nth)
  have B: "deref st' (g_twp st') = deref (write_cell ?c st) (g_twp st)"
    by (simp add: assms(7))
  show ?thesis
    unfolding live_inv_def c
  proof (intro conjI allI impI)
    show "0 \<le> live_count st'" "(live_count st' = 0) = (counted st = 0)"
      using assms(2) by (simp_all add: live_inv_def assms(7))
  next
    fix i j assume i: "i < length (threads st')"
      and h: "pc (threads st' ! i) = Load j \<or> (\<exists>x. pc (threads st' ! i) = Store j x)"
    have i': "i < length (threads st)" using i by (simp add: assms(7))
    have tc: "tile_cells (threads st' ! i) = tile_cells (threads st ! i)"
      using nth [OF i'] by (simp split: if_splits)
    have j: "j < length (tile_cells (threads st ! i))
             \<and> (if i = t \<and> j = k then v = LIVE
                 else cell (deref st (g_twp st)) (g_n st) (tile_cells (threads st ! i) ! j) = LIVE)"
    proof (cases "i = t")
      case True
      then show ?thesis using h nth [OF i'] assms(5) by (auto split: if_splits)
    next
      case False
      then have "pc (threads st ! i) = Load j \<or> (\<exists>x. pc (threads st ! i) = Store j x)"
        using h nth [OF i'] by simp
      then show ?thesis using assms(2) i' False by (auto simp: live_inv_def)
    qed
    show "j < length (tile_cells (threads st' ! i))"
      using j tc by simp
    show "cell (deref st' (g_twp st')) (g_n st') (tile_cells (threads st' ! i) ! j) = LIVE"
      unfolding B tc using pending_cell [OF assms(1,3,5) i', of j] j assms(6)
      by (auto simp: assms(7) split: if_splits)
  next
    fix i j x assume i: "i < length (threads st')" and h: "pc (threads st' ! i) = Store j x"
    have i': "i < length (threads st)" using i by (simp add: assms(7))
    have "pc (threads st ! i) = Store j x" using h nth [OF i'] by (auto split: if_splits)
    then show "0 \<le> x" using assms(2) i' by (auto simp: live_inv_def)
  qed
qed

lemma live_inv_store:
  assumes "wf st" "live_inv st" "t < length (threads st)" "pc (threads st ! t) = Store k v"
    and "st' = set_pc t (Tile (Suc k)) (st\<lparr>live_count := v + 1\<rparr>)"
  shows "live_inv st'"
proof -
  let ?th = "threads st ! t"
  let ?B = "deref st (g_twp st)"
  have pend: "k < length (tile_cells ?th)" "cell ?B (g_n st) (tile_cells ?th ! k) = LIVE"
    and v: "0 \<le> v"
    using assms(2,3,4) by (auto simp: live_inv_def)
  have tk: "take (Suc k) (tile_cells ?th) = take k (tile_cells ?th) @ [tile_cells ?th ! k]"
    using pend(1) by (rule take_Suc_conv_app_nth)
  have "counted st' = counted st - live_in ?B (g_n st) (counted_cells ?th)
           + live_in ?B (g_n st) (counted_cells (?th\<lparr>pc := Tile (Suc k)\<rparr>))"
    using assms(3) by (rule counted_set_pc) (simp_all add: assms(5) threads_set_pc)
  also have "\<dots> = counted st + 1"
    using assms(4) pend(2) by (simp add: counted_cells_def tk live_in_append live_in_def)
  finally have c: "counted st' = counted st + 1" .
  have c0: "counted st' \<noteq> 0" using c counted_nonneg [of st] by simp
  have nth: "threads st' ! i = (if i = t then ?th\<lparr>pc := Tile (Suc k)\<rparr> else threads st ! i)"
    if "i < length (threads st)" for i
    using that by (simp add: assms(5) set_pc_nth)
  show ?thesis
    unfolding live_inv_def
  proof (intro conjI allI impI)
    show "0 \<le> live_count st'" "(live_count st' = 0) = (counted st' = 0)"
      using v c0 by (simp_all add: assms(5))
  next
    fix i j assume i: "i < length (threads st')"
      and h: "pc (threads st' ! i) = Load j \<or> (\<exists>x. pc (threads st' ! i) = Store j x)"
    have i': "i < length (threads st)" using i by (simp add: assms(5))
    have ne: "i \<noteq> t" using h nth [OF i'] by auto
    then have "pc (threads st ! i) = Load j \<or> (\<exists>x. pc (threads st ! i) = Store j x)"
      "threads st' ! i = threads st ! i"
      using h nth [OF i'] by simp_all
    then show "j < length (tile_cells (threads st' ! i))"
      "cell (deref st' (g_twp st')) (g_n st') (tile_cells (threads st' ! i) ! j) = LIVE"
      using assms(2) i' by (auto simp: live_inv_def assms(5))
  next
    fix i j x assume i: "i < length (threads st')" and h: "pc (threads st' ! i) = Store j x"
    have i': "i < length (threads st)" using i by (simp add: assms(5))
    have "pc (threads st ! i) = Store j x" using h nth [OF i'] by (auto split: if_splits)
    then show "0 \<le> x" using assms(2) i' by (auto simp: live_inv_def)
  qed
qed

lemma live_inv_step:
  assumes "wf st" "sync_inv st \<and> live_inv st" "step t st = Some st'"
    and "\<not> (t < length (threads st) \<and> pc (threads st ! t) = Waiting)"
  shows "sync_inv st' \<and> live_inv st'"
proof -
  have sync: "sync_inv st'" using assms sync_inv_step by blast
  have live: "live_inv st" using assms(2) by simp
  have len: "int (length (threads st)) = thread_count st" using assms(1) by (simp add: wf_def)
  have "live_inv st'"
    using assms(1,3)
  proof (cases rule: step_cases)
    case idle
    then show ?thesis using live by simp
  next
    case top
    show ?thesis
      using live top(1) by (rule live_inv_pc) (auto simp: top counted_cells_def split: if_splits)
  next
    case (cell k)
    show ?thesis using assms(1) live cell(1-3) refl cell(4) by (rule live_inv_cell)
  next
    case (load k)
    show ?thesis
      using live load(1)
    proof (rule live_inv_pc)
      show "counted_cells ((threads st ! t)\<lparr>pc := Store k (live_count st)\<rparr>)
            = counted_cells (threads st ! t)"
        using load(2) by (simp add: counted_cells_def)
      show "k' < length (tile_cells (threads st ! t)) \<and>
            cell (deref st (g_twp st)) (g_n st) (tile_cells (threads st ! t) ! k') = LIVE"
        if "Store k (live_count st) = Load k' \<or> (\<exists>v. Store k (live_count st) = Store k' v)" for k'
        using that live load(1,2) by (auto simp: live_inv_def)
      show "0 \<le> v" if "Store k (live_count st) = Store k' v" for k' v
        using that live by (auto simp: live_inv_def)
    qed (simp_all add: load(3))
  next
    case (store k v)
    show ?thesis using assms(1) live store by (rule live_inv_store)
  next
    case (wait k)
    show ?thesis
      using live wait(1)
      by (rule live_inv_pc [where p = Waiting])
         (simp_all add: wait counted_cells_def deref_def threads_set_pc split: buf.split)
  next
    case (extinct k)
    have "int (length (filter (\<lambda>th. pc th = Waiting) (threads st))) + 1 = int (length (threads st))"
      using assms(2) extinct(4) len by (simp add: sync_inv_def)
    then have "list_all (\<lambda>th. pc th = Woken) (threads st')"
      unfolding extinct(6) using extinct(1,2) by (intro all_woken) auto
    then show ?thesis by (rule live_inv_all_woken) (simp add: extinct(6))
  next
    case (swap k)
    have "int (length (filter (\<lambda>th. pc th = Waiting) (threads st))) + 1 = int (length (threads st))"
      using assms(2) swap(4) len by (simp add: sync_inv_def)
    then have "list_all (\<lambda>th. pc th = Woken) (threads st')"
      unfolding swap(6) using swap(1,2) by (intro all_woken) auto
    then show ?thesis by (rule live_inv_all_woken) (simp add: swap(6))
  next
    case spurious
    then show ?thesis using assms(4) by simp
  next
    case woken
    show ?thesis
      using live woken(1) by (rule live_inv_pc) (auto simp: woken counted_cells_def split: if_splits)
  qed
  with sync show ?thesis by simp
qed

section \<open>The sequence of generations\<close>

lemma gens_lengths:
  assumes "length c0 = l" "length x0 = l"
  shows "length (fst (gens r s m n (c0, x0, o0) k)) = l
       \<and> length (fst (snd (gens r s m n (c0, x0, o0) k))) = l"
  using assms by (induction k) (auto simp: tiles_round_def split: prod.split)

lemma cell_of_index:
  assumes "0 \<le> i" "0 \<le> j" "j < n"
  shows "cell_of n (nat (i * n + j)) = (i, j)"
  using assms by (simp add: cell_of_def div_pos_pos_trivial)

lemma index_cell_of:
  assumes "0 < n"
  shows "nat (fst (cell_of n k) * n + snd (cell_of n k)) = k"
  by (simp add: cell_of_def)

lemma cell_of_in_grid:
  assumes "0 \<le> m" "0 \<le> n" "k < nat (m * n)"
  shows "0 \<le> fst (cell_of n k) \<and> fst (cell_of n k) < m \<and> 0 \<le> snd (cell_of n k)
       \<and> snd (cell_of n k) < n \<and> 0 < n"
proof -
  have lt: "int k < m * n" using assms by linarith
  have n: "0 < n"
  proof (rule ccontr)
    assume "\<not> 0 < n"
    then have "n = 0" using assms(2) by simp
    then show False using lt by simp
  qed
  have "int k div n < m" using lt by (simp only: int_div_less_iff [OF n])
  moreover have "0 \<le> int k div n" using n by (simp add: pos_imp_zdiv_nonneg_iff)
  ultimately show ?thesis using n by (simp add: cell_of_def)
qed

lemma covered_iff_thread:
  assumes "wf st"
  shows "covered (g_r st) (g_s st) (g_m st) (g_n st) c
         \<longleftrightarrow> (\<exists>t < length (threads st). c \<in> set (tile_cells (threads st ! t)))"
proof -
  have len: "length (threads st) = nat (g_r st * g_s st)" using assms by (simp add: wf_def)
  have "covered (g_r st) (g_s st) (g_m st) (g_n st) c
        \<longleftrightarrow> (\<exists>t < nat (g_r st * g_s st).
               c \<in> set (tile_cells (tile (g_r st) (g_s st) (g_m st) (g_n st) (int t))))"
    by (auto simp: covered_def list_ex_iff)
  also have "\<dots> \<longleftrightarrow> (\<exists>t < length (threads st). c \<in> set (tile_cells (threads st ! t)))"
    using wf_thread_tile [OF assms] len by auto
  finally show ?thesis .
qed

lemma extinct_iff_thread:
  assumes "wf st"
  shows "extinct (g_r st) (g_s st) (g_m st) (g_n st) cur
         \<longleftrightarrow> (\<forall>t < length (threads st). \<forall>c \<in> set (tile_cells (threads st ! t)).
                next_state cur (g_m st) (g_n st) c \<noteq> LIVE)"
proof -
  have len: "length (threads st) = nat (g_r st * g_s st)" using assms by (simp add: wf_def)
  have "extinct (g_r st) (g_s st) (g_m st) (g_n st) cur
        \<longleftrightarrow> (\<forall>t < nat (g_r st * g_s st).
               \<forall>c \<in> set (tile_cells (tile (g_r st) (g_s st) (g_m st) (g_n st) (int t))).
                next_state cur (g_m st) (g_n st) c \<noteq> LIVE)"
    by (auto simp: extinct_def list_all_iff)
  also have "\<dots> \<longleftrightarrow> (\<forall>t < length (threads st). \<forall>c \<in> set (tile_cells (threads st ! t)).
                next_state cur (g_m st) (g_n st) c \<noteq> LIVE)"
    using wf_thread_tile [OF assms] len by auto
  finally show ?thesis .
qed

lemma done_set_nth:
  "set (concat (map done_cells ths)) = (\<Union>i \<in> {..<length ths}. set (done_cells (ths ! i)))"
proof -
  have "set ths = (\<lambda>i. ths ! i) ` {..<length ths}"
    by (auto simp: in_set_conv_nth)
  then show ?thesis by (simp add: image_image)
qed

lemma done_set_split:
  assumes "t < length ths"
  shows "set (concat (map done_cells ths))
         = (\<Union>i \<in> {..<length ths} - {t}. set (done_cells (ths ! i))) \<union> set (done_cells (ths ! t))"
  unfolding done_set_nth using assms by auto

lemma done_set_update:
  assumes "t < length ths"
  shows "set (concat (map done_cells (ths[t := th])))
         = (\<Union>i \<in> {..<length ths} - {t}. set (done_cells (ths ! i))) \<union> set (done_cells th)"
proof -
  have "(\<Union>i \<in> {..<length ths} - {t}. set (done_cells (ths[t := th] ! i)))
        = (\<Union>i \<in> {..<length ths} - {t}. set (done_cells (ths ! i)))"
    by (intro SUP_cong) auto
  then show ?thesis using done_set_split [of t "ths[t := th]"] assms by simp
qed

lemma done_set_same:
  assumes "t < length (threads st)"
    and "set (done_cells ((threads st ! t)\<lparr>pc := p\<rparr>)) = set (done_cells (threads st ! t))"
    and "threads st' = threads (set_pc t p st)"
  shows "set (concat (map done_cells (threads st'))) = set (concat (map done_cells (threads st)))"
  using assms done_set_update [OF assms(1)] done_set_split [OF assms(1)]
  by (simp add: threads_set_pc)

lemma done_set_woken:
  assumes "list_all (\<lambda>th. pc th = Woken) ths"
  shows "set (concat (map done_cells ths)) = {}"
  using assms by (induction ths) (auto simp: done_cells_def)

lemma last_arrival_done:
  assumes "wf st" "sync_inv st" "t < length (threads st)" "pc (threads st ! t) = Tile k"
    and "length (tile_cells (threads st ! t)) \<le> k" "barrier_count st + 1 = thread_count st"
    and "i < length (threads st)"
  shows "done_cells (threads st ! i) = tile_cells (threads st ! i)"
proof -
  have len: "int (length (threads st)) = thread_count st" using assms(1) by (simp add: wf_def)
  have cnt: "length (filter (\<lambda>th. pc th = Waiting) (threads st)) + 1 = length (threads st)"
    using assms(2,6) len by (simp add: sync_inv_def)
  show ?thesis
  proof (cases "i = t")
    case True
    then show ?thesis using assms(4,5) by (simp add: done_cells_def)
  next
    case False
    have "pc (threads st ! i) = Waiting"
      using all_but_one [OF cnt, of t i] assms(3,4,7) False by simp
    then show ?thesis by (simp add: done_cells_def)
  qed
qed

lemma last_arrival_counted:
  assumes "wf st" "sync_inv st" "t < length (threads st)" "pc (threads st ! t) = Tile k"
    and "length (tile_cells (threads st ! t)) \<le> k" "barrier_count st + 1 = thread_count st"
    and "i < length (threads st)"
  shows "counted_cells (threads st ! i) = tile_cells (threads st ! i)"
proof -
  have len: "int (length (threads st)) = thread_count st" using assms(1) by (simp add: wf_def)
  have cnt: "length (filter (\<lambda>th. pc th = Waiting) (threads st)) + 1 = length (threads st)"
    using assms(2,6) len by (simp add: sync_inv_def)
  show ?thesis
  proof (cases "i = t")
    case True
    then show ?thesis using assms(4,5) by (simp add: counted_cells_def)
  next
    case False
    have "pc (threads st ! i) = Waiting"
      using all_but_one [OF cnt, of t i] assms(3,4,7) False by simp
    then show ?thesis by (simp add: counted_cells_def)
  qed
qed

lemma last_arrival_done_set:
  assumes "wf st" "sync_inv st" "t < length (threads st)" "pc (threads st ! t) = Tile k"
    and "length (tile_cells (threads st ! t)) \<le> k" "barrier_count st + 1 = thread_count st"
  shows "c \<in> set (concat (map done_cells (threads st)))
         \<longleftrightarrow> covered (g_r st) (g_s st) (g_m st) (g_n st) c"
  unfolding done_set_nth covered_iff_thread [OF assms(1)]
  using last_arrival_done [OF assms] by auto

lemma last_arrival_live_count:
  assumes "wf st" "sync_inv st" "live_inv st" "t < length (threads st)"
    and "pc (threads st ! t) = Tile k"
    and "length (tile_cells (threads st ! t)) \<le> k" "barrier_count st + 1 = thread_count st"
  shows "live_count st = 0 \<longleftrightarrow>
         (\<forall>i < length (threads st). \<forall>c \<in> set (tile_cells (threads st ! i)).
            cell (deref st (g_twp st)) (g_n st) c \<noteq> LIVE)"
proof -
  let ?B = "deref st (g_twp st)"
  let ?f = "\<lambda>th. live_in ?B (g_n st) (counted_cells th)"
  have "live_count st = 0 \<longleftrightarrow> sum_list (map ?f (threads st)) = 0"
    using assms(3) by (simp add: live_inv_def counted_def)
  moreover have "sum_list (map ?f (threads st)) = 0 \<longleftrightarrow> (\<forall>x \<in> set (map ?f (threads st)). x = 0)"
    by (intro sum_list_nonneg_eq_0_iff) (auto simp: live_in_def)
  moreover have "(\<forall>x \<in> set (map ?f (threads st)). x = 0)
                 \<longleftrightarrow> (\<forall>i < length (threads st). ?f (threads st ! i) = 0)"
    unfolding set_map ball_simps all_set_conv_all_nth by simp
  moreover have "?f (threads st ! i) = 0
                 \<longleftrightarrow> (\<forall>c \<in> set (tile_cells (threads st ! i)). cell ?B (g_n st) c \<noteq> LIVE)"
    if "i < length (threads st)" for i
    using last_arrival_counted [OF assms(1,2,4-7) that]
    by (auto simp: live_in_def filter_empty_conv)
  ultimately show ?thesis by auto
qed

lemma generation_lengths:
  assumes "wf st0"
  shows "length (fst (generation st0 k)) = nat (g_m st0 * g_n st0)"
    "length (fst (snd (generation st0 k))) = nat (g_m st0 * g_n st0)"
  using gens_lengths [of "w1 st0" "nat (g_m st0 * g_n st0)" "w2 st0"] assms
  by (simp_all add: generation_def wf_def)

lemma generation_Suc:
  "generation st0 (Suc k) =
     (tiles_round (g_r st0) (g_s st0) (g_m st0) (g_n st0)
                  (fst (generation st0 k)) (fst (snd (generation st0 k))),
      fst (generation st0 k),
      snd (snd (generation st0 k))
        @ render (''Generation '' @ show_int (int (Suc k)))
                 (tiles_round (g_r st0) (g_s st0) (g_m st0) (g_n st0)
                              (fst (generation st0 k)) (fst (snd (generation st0 k))))
                 (g_m st0) (g_n st0))"
  by (simp add: generation_def split: prod.split)

lemma gen_inv_pc_only:
  assumes "gen_inv st0 st" "curr_gen st' = curr_gen st" "break_flag st' = break_flag st"
    and "stdout st' = stdout st" "g_wp st' = g_wp st" "g_twp st' = g_twp st"
    and "w1 st' = w1 st" "w2 st' = w2 st"
    and "set (concat (map done_cells (threads st'))) = set (concat (map done_cells (threads st)))"
  shows "gen_inv st0 st'"
proof -
  have "deref st' b = deref st b" for b using assms(7,8) by (simp add: deref_def split: buf.split)
  then show ?thesis using assms unfolding gen_inv_def by simp
qed

lemma gen_inv_cell:
  assumes "wf st0" "wf st" "sync_inv st" "frame_inv st0 st" "gen_inv st0 st"
    and "t < length (threads st)" "pc (threads st ! t) = Tile k"
    and "k < length (tile_cells (threads st ! t))" and "p = Load k \<or> p = Tile (Suc k)"
  shows "gen_inv st0 (set_pc t p (write_cell (tile_cells (threads st ! t) ! k) st))"
proof -
  let ?th = "threads st ! t"
  let ?c = "tile_cells ?th ! k"
  let ?st' = "set_pc t p (write_cell ?c st)"
  let ?g = "generation st0 (nat (curr_gen st))"
  let ?D = "set (concat (map done_cells (threads st)))"
  have eq: "g_m st = g_m st0" "g_n st = g_n st0"
    using assms(4) by (simp_all add: frame_inv_def)
  have nf: "break_flag st = 0"
    using assms(3,6,7) unfolding sync_inv_def list_all_length by fastforce
  have ne: "g_wp st \<noteq> g_twp st" using assms(2) by (simp add: wf_def)
  have c: "?c \<in> set (tile_cells ?th)" using assms(8) by simp
  have cg: "0 \<le> fst ?c" "fst ?c < g_m st0" "0 \<le> snd ?c" "snd ?c < g_n st0"
    using wf_cell_in_grid [OF assms(2,6) c] eq by auto
  have cur: "deref st (g_wp st) = fst ?g" using assms(5) by (simp add: gen_inv_def)
  have D': "set (concat (map done_cells (threads ?st'))) = insert ?c ?D"
  proof -
    have "take (Suc k) (tile_cells ?th) = take k (tile_cells ?th) @ [?c]"
      using assms(8) by (rule take_Suc_conv_app_nth)
    then have "set (done_cells (?th\<lparr>pc := p\<rparr>)) = insert ?c (set (done_cells ?th))"
      using assms(7,9) by (auto simp: done_cells_def)
    then show ?thesis
      using done_set_update [OF assms(6), of "?th\<lparr>pc := p\<rparr>"] done_set_split [OF assms(6)]
      by (simp add: threads_set_pc)
  qed
  have twp: "deref ?st' (g_twp ?st') ! i =
             (if cell_of (g_n st0) i \<in> insert ?c ?D
              then next_state (fst ?g) (g_m st0) (g_n st0) (cell_of (g_n st0) i)
              else fst (snd ?g) ! i)"
    if i: "i < length (fst (snd ?g))" for i
  proof -
    let ?idx = "nat (fst ?c * g_n st0 + snd ?c)"
    have old: "deref st (g_twp st) ! i =
             (if cell_of (g_n st0) i \<in> ?D
              then next_state (fst ?g) (g_m st0) (g_n st0) (cell_of (g_n st0) i)
              else fst (snd ?g) ! i)"
      using assms(5) nf i by (simp add: gen_inv_def)
    have len: "length (deref st (g_twp st)) = nat (g_m st0 * g_n st0)"
      using deref_length [OF assms(2)] eq by simp
    have i': "i < nat (g_m st0 * g_n st0)" using i generation_lengths(2) [OF assms(1)] by simp
    have n: "0 < g_n st0" using cg by simp
    have co: "cell_of (g_n st0) ?idx = ?c"
      using cell_of_index [OF cg(1,3,4)] by simp
    show ?thesis
    proof (cases "i = ?idx")
      case True
      then show ?thesis using i' len co cur eq by (simp add: write_cell_deref)
    next
      case False
      then have "cell_of (g_n st0) i \<noteq> ?c"
        using index_cell_of [OF n, of i] by auto
      then show ?thesis using False old eq by (simp add: write_cell_deref)
    qed
  qed
  have wp: "deref ?st' (g_wp ?st') = fst ?g" using ne cur by (simp add: write_cell_deref)
  show ?thesis
    unfolding gen_inv_def
  proof (intro conjI impI allI)
    show "deref ?st' (g_wp ?st') = fst (generation st0 (nat (curr_gen ?st')))"
      using wp by simp
    show "stdout ?st' = snd (snd (generation st0 (nat (curr_gen ?st'))))"
      using assms(5) by (simp add: gen_inv_def)
    show "extinct (g_r st0) (g_s st0) (g_m st0) (g_n st0) (fst (generation st0 (nat (curr_gen ?st'))))"
      if "break_flag ?st' = 1"
      using that nf by simp
    show "\<not> extinct (g_r st0) (g_s st0) (g_m st0) (g_n st0) (fst (generation st0 j))"
      "int j < max_gens st0" if "j < nat (curr_gen ?st')" for j
      using assms(5) that by (simp_all add: gen_inv_def)
    show "deref ?st' (g_twp ?st') ! i =
             (if cell_of (g_n st0) i \<in> set (concat (map done_cells (threads ?st')))
              then next_state (fst (generation st0 (nat (curr_gen ?st')))) (g_m st0) (g_n st0)
                              (cell_of (g_n st0) i)
              else fst (snd (generation st0 (nat (curr_gen ?st')))) ! i)"
      if "i < length (fst (snd (generation st0 (nat (curr_gen ?st')))))" for i
      using twp [of i] that unfolding D' by simp
  qed
qed

lemma last_arrival_next_buffer:
  assumes "wf st0" "wf st" "sync_inv st" "live_inv st" "frame_inv st0 st" "gen_inv st0 st"
    and "t < length (threads st)" "pc (threads st ! t) = Tile k"
    and "length (tile_cells (threads st ! t)) \<le> k" "barrier_count st + 1 = thread_count st"
  shows "deref st (g_twp st) =
           tiles_round (g_r st0) (g_s st0) (g_m st0) (g_n st0)
                       (fst (generation st0 (nat (curr_gen st))))
                       (fst (snd (generation st0 (nat (curr_gen st)))))"
    and "live_count st = 0 \<longleftrightarrow>
           extinct (g_r st0) (g_s st0) (g_m st0) (g_n st0) (fst (generation st0 (nat (curr_gen st))))"
proof -
  let ?g = "generation st0 (nat (curr_gen st))"
  let ?D = "set (concat (map done_cells (threads st)))"
  have eq: "g_r st = g_r st0" "g_s st = g_s st0" "g_m st = g_m st0" "g_n st = g_n st0"
    using assms(5) by (simp_all add: frame_inv_def)
  have nf: "break_flag st = 0"
    using assms(3,7,8) unfolding sync_inv_def list_all_length by fastforce
  have lens: "length (fst (snd ?g)) = nat (g_m st0 * g_n st0)"
    "length (deref st (g_twp st)) = nat (g_m st0 * g_n st0)"
    using generation_lengths(2) [OF assms(1)] deref_length [OF assms(2)] eq by simp_all
  have D: "c \<in> ?D \<longleftrightarrow> covered (g_r st0) (g_s st0) (g_m st0) (g_n st0) c" for c
    using last_arrival_done_set [OF assms(2,3,7-10)] eq by simp
  have A3: "deref st (g_twp st) ! i =
             (if covered (g_r st0) (g_s st0) (g_m st0) (g_n st0) (cell_of (g_n st0) i)
              then next_state (fst ?g) (g_m st0) (g_n st0) (cell_of (g_n st0) i)
              else fst (snd ?g) ! i)"
    if "i < nat (g_m st0 * g_n st0)" for i
    using assms(6) nf that lens D by (simp add: gen_inv_def)
  show "deref st (g_twp st) =
           tiles_round (g_r st0) (g_s st0) (g_m st0) (g_n st0) (fst ?g) (fst (snd ?g))"
    using lens A3 by (intro nth_equalityI) (simp_all add: tiles_round_def)
  have val: "cell (deref st (g_twp st)) (g_n st) c = next_state (fst ?g) (g_m st0) (g_n st0) c"
    if "i < length (threads st)" "c \<in> set (tile_cells (threads st ! i))" for i c
  proof -
    have cg: "0 \<le> fst c" "fst c < g_m st0" "0 \<le> snd c" "snd c < g_n st0"
      using wf_cell_in_grid [OF assms(2) that] eq by auto
    have idx: "nat (fst c * g_n st0 + snd c) < nat (g_m st0 * g_n st0)"
      using cell_index [OF cg] by simp
    have "covered (g_r st0) (g_s st0) (g_m st0) (g_n st0) c"
      using covered_iff_thread [OF assms(2), of c] that eq by auto
    then show ?thesis
      using A3 [OF idx] cell_of_index [OF cg(1,3,4)] eq
      by (cases c) (simp add: cell_def)
  qed
  have "live_count st = 0 \<longleftrightarrow>
         (\<forall>i < length (threads st). \<forall>c \<in> set (tile_cells (threads st ! i)).
            cell (deref st (g_twp st)) (g_n st) c \<noteq> LIVE)"
    using assms(2,3,4,7-10) by (rule last_arrival_live_count)
  also have "\<dots> \<longleftrightarrow>
         (\<forall>i < length (threads st). \<forall>c \<in> set (tile_cells (threads st ! i)).
            next_state (fst ?g) (g_m st0) (g_n st0) c \<noteq> LIVE)"
    using val by auto
  also have "\<dots> \<longleftrightarrow> extinct (g_r st0) (g_s st0) (g_m st0) (g_n st0) (fst ?g)"
    using extinct_iff_thread [OF assms(2), of "fst ?g"] eq by simp
  finally show "live_count st = 0 \<longleftrightarrow>
           extinct (g_r st0) (g_s st0) (g_m st0) (g_n st0) (fst ?g)" .
qed

lemma gen_inv_step:
  assumes "wf st0" "wf st" "all_inv st0 st" "step t st = Some st'"
    and "\<not> (t < length (threads st) \<and> pc (threads st ! t) = Waiting)"
  shows "gen_inv st0 st'"
proof -
  have sync: "sync_inv st" and live: "live_inv st" and fr: "frame_inv st0 st"
    and gen: "gen_inv st0 st"
    using assms(3) by (simp_all add: all_inv_def)
  have eq: "g_m st = g_m st0" "g_n st = g_n st0" and ge: "0 \<le> curr_gen st"
    using fr by (simp_all add: frame_inv_def)
  have len: "int (length (threads st)) = thread_count st" using assms(2) by (simp add: wf_def)
  let ?g = "generation st0 (nat (curr_gen st))"
  from assms(2,4) show ?thesis
  proof (cases rule: step_cases)
    case idle
    then show ?thesis using gen by simp
  next
    case top
    show ?thesis
      using gen
    proof (rule gen_inv_pc_only)
      show "set (concat (map done_cells (threads st'))) = set (concat (map done_cells (threads st)))"
        using top(1) by (rule done_set_same) (simp_all add: top done_cells_def)
    qed (simp_all add: top)
  next
    case (cell k)
    show ?thesis unfolding cell(4)
      using assms(1,2) sync fr gen cell(1-3) by (rule gen_inv_cell) simp
  next
    case (load k)
    show ?thesis
      using gen
    proof (rule gen_inv_pc_only)
      show "set (concat (map done_cells (threads st'))) = set (concat (map done_cells (threads st)))"
        using load(1) by (rule done_set_same) (simp_all add: load done_cells_def)
    qed (simp_all add: load)
  next
    case (store k v)
    show ?thesis
      using gen
    proof (rule gen_inv_pc_only)
      show "set (concat (map done_cells (threads st'))) = set (concat (map done_cells (threads st)))"
        using store(1)
        by (rule done_set_same [where p = "Tile (Suc k)"])
           (simp_all add: store done_cells_def threads_set_pc)
    qed (simp_all add: store)
  next
    case spurious
    then show ?thesis using assms(5) by simp
  next
    case (wait k)
    show ?thesis
      using gen
    proof (rule gen_inv_pc_only)
      show "set (concat (map done_cells (threads st'))) = set (concat (map done_cells (threads st)))"
        using wait(1)
        by (rule done_set_same [where p = Waiting]) (simp_all add: wait done_cells_def threads_set_pc)
    qed (simp_all add: wait)
  next
    case (extinct k)
    have ex: "extinct (g_r st0) (g_s st0) (g_m st0) (g_n st0) (fst ?g)"
      using last_arrival_next_buffer(2) [OF assms(1,2) sync live fr gen extinct(1-4)] extinct(5)
      by simp
    show ?thesis
      using gen ex unfolding gen_inv_def extinct(6) by simp
  next
    case (swap k)
    have nf: "break_flag st = 0" "curr_gen st < max_gens st"
      using sync swap(1,2) unfolding sync_inv_def list_all_length by fastforce+
    have mx: "max_gens st = max_gens st0" using fr by (simp add: frame_inv_def)
    have new: "deref st (g_twp st) =
           tiles_round (g_r st0) (g_s st0) (g_m st0) (g_n st0) (fst ?g) (fst (snd ?g))"
      using assms(1,2) sync live fr gen swap(1-4) by (rule last_arrival_next_buffer(1))
    have nex: "\<not> extinct (g_r st0) (g_s st0) (g_m st0) (g_n st0) (fst ?g)"
      using last_arrival_next_buffer(2) [OF assms(1,2) sync live fr gen swap(1-4)] swap(5)
      by simp
    have "int (length (filter (\<lambda>th. pc th = Waiting) (threads st))) + 1 = int (length (threads st))"
      using sync swap(4) len by (simp add: sync_inv_def)
    then have "list_all (\<lambda>th. pc th = Woken) (threads st')"
      unfolding swap(6) using swap(1,2) by (intro all_woken) auto
    then have D': "set (concat (map done_cells (threads st'))) = {}" by (rule done_set_woken)
    have k': "nat (curr_gen st') = Suc (nat (curr_gen st))" using ge by (simp add: swap(6))
    have title: "int (Suc (nat (curr_gen st))) = curr_gen st + 1" using ge by simp
    have cur: "deref st (g_wp st) = fst ?g" and out: "stdout st = snd (snd ?g)"
      using gen by (simp_all add: gen_inv_def)
    have old: "\<not> extinct (g_r st0) (g_s st0) (g_m st0) (g_n st0) (fst (generation st0 j))
               \<and> int j < max_gens st0" if "j < Suc (nat (curr_gen st))" for j
    proof (cases "j = nat (curr_gen st)")
      case True
      then show ?thesis using nex nf(2) mx ge by simp
    next
      case False
      then show ?thesis using gen that by (simp add: gen_inv_def)
    qed
    show ?thesis
      unfolding gen_inv_def k' D' generation_Suc
      using new cur out old nf(1) eq title by (simp add: swap(6) add.commute)
  next
    case woken
    show ?thesis
      using gen
    proof (rule gen_inv_pc_only)
      show "set (concat (map done_cells (threads st'))) = set (concat (map done_cells (threads st)))"
        using woken(1) by (rule done_set_same) (simp_all add: woken done_cells_def)
    qed (simp_all add: woken)
  qed
qed

section \<open>Determinism\<close>

lemma all_inv_step:
  assumes "wf st0" "wf st" "all_inv st0 st" "step t st = Some st'"
    and "\<not> (t < length (threads st) \<and> pc (threads st ! t) = Waiting)"
  shows "all_inv st0 st'"
proof -
  have "sync_inv st \<and> live_inv st" using assms(3) by (simp add: all_inv_def)
  then have "sync_inv st' \<and> live_inv st'" using assms(2,4,5) live_inv_step by blast
  moreover have "frame_inv st0 st" using assms(3) by (simp add: all_inv_def)
  then have "frame_inv st0 st'" using assms(1,2,4) frame_inv_step by blast
  moreover have "gen_inv st0 st'" using assms by (rule gen_inv_step)
  ultimately show ?thesis by (simp add: all_inv_def)
qed

lemma reachable_all_inv:
  assumes "main_start strtol malloc pthread_create argv inp coin junk1 junk2 = Started st0"
    and "0 < g_r st0" "0 < g_s st0" "0 \<le> g_m st0" "0 \<le> g_n st0" and "malloc 2"
    and "run sched st0 = Some st" "no_spurious_wakeup sched st0"
  shows "all_inv st0 st"
proof -
  have wf0: "wf st0" using assms(1-6) by (rule main_start_wf)
  have top: "list_all (\<lambda>th. pc th = Top \<or> pc th = NotCreated) (threads st0)"
    using assms(1) by (rule main_start_pcs)
  have "set (concat (map done_cells ths)) = {}"
    if "list_all (\<lambda>th. pc th = Top \<or> pc th = NotCreated) ths" for ths
    using that by (induction ths) (auto simp: done_cells_def)
  then have D: "set (concat (map done_cells (threads st0))) = {}" using top by simp
  have "gen_inv st0 st0"
    using main_start_props(8,9,11,13) [OF assms(1)] D
    by (simp add: gen_inv_def generation_def deref_def)
  moreover have "frame_inv st0 st0" using assms(1-6) run_Nil by (rule reachable_frame_inv)
  moreover have "live_inv st0"
  proof -
    have "pc (threads st0 ! i) = Top \<or> pc (threads st0 ! i) = NotCreated"
      if "i < length (threads st0)" for i
      using top that by (simp add: list_all_length)
    then show ?thesis
      using counted_start [OF top] main_start_props(12) [OF assms(1)]
      by (fastforce simp: live_inv_def)
  qed
  moreover have "sync_inv st0" using assms(1) by (rule main_start_sync_inv)
  ultimately have "all_inv st0 st0" by (simp add: all_inv_def)
  with all_inv_step [OF wf0] wf0 show ?thesis using assms(7,8)
    by (rule orderly_invariant [where I = "all_inv st0"])
qed

lemma covered_divisible:
  assumes "0 < r" "0 < s" "0 \<le> m" "0 \<le> n" "r dvd m" "s dvd n" "k < nat (m * n)"
  shows "covered r s m n (cell_of n k)"
proof -
  have g: "0 \<le> fst (cell_of n k) \<and> fst (cell_of n k) < m \<and> 0 \<le> snd (cell_of n k)
       \<and> snd (cell_of n k) < n"
    using cell_of_in_grid [OF assms(3,4,7)] by simp
  obtain w where w: "0 \<le> w" "w < r * s"
    "(fst (cell_of n k), snd (cell_of n k)) \<in> set (tile_cells (tile r s m n w))"
    using tiles_cover [OF assms(1,2,5,6), of "fst (cell_of n k)" "snd (cell_of n k)"] g by blast
  have "nat w \<in> set [0..<nat (r * s)]" using w by simp
  moreover have "cell_of n k \<in> set (tile_cells (tile r s m n (int (nat w))))" using w by simp
  ultimately show ?thesis unfolding covered_def list_ex_iff by blast
qed

lemma tiles_round_divisible:
  assumes "0 < r" "0 < s" "0 \<le> m" "0 \<le> n" "r dvd m" "s dvd n" "length nxt = nat (m * n)"
  shows "tiles_round r s m n cur nxt = map (\<lambda>k. next_state cur m n (cell_of n k)) [0..<nat (m * n)]"
  unfolding tiles_round_def assms(7)
  using covered_divisible [OF assms(1-6)] by (intro map_cong) auto

lemma extinct_divisible:
  assumes "0 < r" "0 < s" "0 \<le> m" "0 \<le> n" "r dvd m" "s dvd n"
  shows "extinct r s m n cur \<longleftrightarrow> (\<forall>k < nat (m * n). next_state cur m n (cell_of n k) \<noteq> LIVE)"
proof
  assume e: "extinct r s m n cur"
  show "\<forall>k < nat (m * n). next_state cur m n (cell_of n k) \<noteq> LIVE"
  proof (intro allI impI)
    fix k assume "k < nat (m * n)"
    then have "covered r s m n (cell_of n k)" using assms by (intro covered_divisible)
    then show "next_state cur m n (cell_of n k) \<noteq> LIVE"
      using e unfolding covered_def extinct_def list_ex_iff list_all_iff by blast
  qed
next
  assume a: "\<forall>k < nat (m * n). next_state cur m n (cell_of n k) \<noteq> LIVE"
  show "extinct r s m n cur"
    unfolding extinct_def list_all_iff
  proof (intro ballI)
    fix w c assume w: "w \<in> set [0..<nat (r * s)]" and c: "c \<in> set (tile_cells (tile r s m n (int w)))"
    have "0 \<le> int w" "int w < r * s" using w by auto
    then have g: "0 \<le> fst c \<and> fst c < m \<and> 0 \<le> snd c \<and> snd c < n"
      using tile_in_grid [OF assms(1-4), of "int w" "fst c" "snd c"] c by simp
    then have "nat (fst c * n + snd c) < nat (m * n)" "cell_of n (nat (fst c * n + snd c)) = c"
      using cell_index [of "fst c" m "snd c" n] cell_of_index [of "fst c" "snd c" n] by auto
    then have "nat (fst c * n + snd c) < nat (m * n) \<and> cell_of n (nat (fst c * n + snd c)) = c"
      by simp
    then obtain k where "k < nat (m * n)" "cell_of n k = c" by blast
    then show "next_state cur m n c \<noteq> LIVE" using a by auto
  qed
qed

lemma generation_same_start:
  assumes "g_r st0' = g_r st0" "g_s st0' = g_s st0" "g_m st0' = g_m st0" "g_n st0' = g_n st0"
    "w1 st0' = w1 st0" "w2 st0' = w2 st0" "stdout st0' = stdout st0"
  shows "generation st0' k = generation st0 k"
  using assms by (simp add: generation_def)

lemma generation_divisible:
  assumes "wf st0" "wf st0'" "g_m st0' = g_m st0" "g_n st0' = g_n st0"
    "w1 st0' = w1 st0" "stdout st0' = stdout st0"
    and "g_r st0 dvd g_m st0" "g_s st0 dvd g_n st0" "g_r st0' dvd g_m st0" "g_s st0' dvd g_n st0"
  shows "fst (generation st0' k) = fst (generation st0 k)
       \<and> snd (snd (generation st0' k)) = snd (snd (generation st0 k))"
proof (induction k)
  case 0
  then show ?case using assms(5,6) by (simp add: generation_def)
next
  case (Suc k)
  have p: "0 < g_r st0" "0 < g_s st0" "0 \<le> g_m st0" "0 \<le> g_n st0"
    "0 < g_r st0'" "0 < g_s st0'"
    using assms(1,2) by (simp_all add: wf_def)
  have "tiles_round (g_r st0') (g_s st0') (g_m st0) (g_n st0)
                    (fst (generation st0 k)) (fst (snd (generation st0' k)))
        = tiles_round (g_r st0) (g_s st0) (g_m st0) (g_n st0)
                    (fst (generation st0 k)) (fst (snd (generation st0 k)))"
    using generation_lengths(2) [OF assms(1), of k] generation_lengths(2) [OF assms(2), of k]
      assms(3,4)
    by (simp add: tiles_round_divisible [OF p(1-4) assms(7,8)]
                  tiles_round_divisible [OF p(5,6) p(3,4) assms(9,10)])
  then show ?case using Suc assms(3,4) by (simp add: generation_Suc)
qed

lemma extinct_same_divisible:
  assumes "wf st0" "wf st0'" "g_m st0' = g_m st0" "g_n st0' = g_n st0"
    and "g_r st0 dvd g_m st0" "g_s st0 dvd g_n st0" "g_r st0' dvd g_m st0" "g_s st0' dvd g_n st0"
  shows "extinct (g_r st0') (g_s st0') (g_m st0') (g_n st0') cur
         \<longleftrightarrow> extinct (g_r st0) (g_s st0) (g_m st0) (g_n st0) cur"
proof -
  have p: "0 < g_r st0" "0 < g_s st0" "0 \<le> g_m st0" "0 \<le> g_n st0"
    "0 < g_r st0'" "0 < g_s st0'"
    using assms(1,2) by (simp_all add: wf_def)
  show ?thesis
    unfolding assms(3,4)
    by (simp add: extinct_divisible [OF p(1-4) assms(5,6)]
                  extinct_divisible [OF p(5,6) p(3,4) assms(7,8)])
qed

lemma complete_run_end:
  assumes "wf st" "all_inv st0 st" "list_all (\<lambda>th. pc th = Exited) (threads st)"
  shows "(break_flag st = 1 \<and> curr_gen st < max_gens st0
          \<and> extinct (g_r st0) (g_s st0) (g_m st0) (g_n st0)
                     (fst (generation st0 (nat (curr_gen st)))))
       \<or> (break_flag st = 0 \<and> max_gens st0 \<le> curr_gen st)"
proof -
  have sync: "sync_inv st" and fr: "frame_inv st0 st" and gen: "gen_inv st0 st"
    using assms(2) by (simp_all add: all_inv_def)
  have mx: "max_gens st = max_gens st0" using fr by (simp add: frame_inv_def)
  show ?thesis
  proof (cases "break_flag st = 1")
    case True
    then show ?thesis using sync gen mx by (simp add: sync_inv_def gen_inv_def)
  next
    case False
    then have f: "break_flag st = 0" using sync by (auto simp: sync_inv_def)
    have "0 < length (threads st)" using assms(1) by (simp add: wf_def)
    then obtain th where th: "th \<in> set (threads st)" by (cases "threads st") auto
    then have "pc th = Exited" using assms(3) by (simp add: list_all_iff)
    then have "\<not> list_all (\<lambda>th. pc th \<noteq> Exited) (threads st)"
      using th by (auto simp: list_all_iff)
    then have "max_gens st \<le> curr_gen st" using sync f by (auto simp: sync_inv_def)
    then show ?thesis using f mx by simp
  qed
qed

lemma complete_runs_same_generation:
  assumes "wf st" "all_inv st0 st" "list_all (\<lambda>th. pc th = Exited) (threads st)"
    and "wf st'" "all_inv st0' st'"
    and "max_gens st0' = max_gens st0"
    and "\<And>k. extinct (g_r st0') (g_s st0') (g_m st0') (g_n st0') (fst (generation st0' k))
            \<longleftrightarrow> extinct (g_r st0) (g_s st0) (g_m st0) (g_n st0) (fst (generation st0 k))"
  shows "curr_gen st' \<le> curr_gen st"
proof (rule ccontr)
  assume "\<not> curr_gen st' \<le> curr_gen st"
  then have lt: "curr_gen st < curr_gen st'" by simp
  have ge: "0 \<le> curr_gen st" using assms(2) by (simp add: all_inv_def frame_inv_def)
  have j: "nat (curr_gen st) < nat (curr_gen st')" using lt ge by simp
  have "\<forall>j < nat (curr_gen st').
          \<not> extinct (g_r st0') (g_s st0') (g_m st0') (g_n st0') (fst (generation st0' j))
          \<and> int j < max_gens st0'"
    using assms(5) by (simp add: all_inv_def gen_inv_def)
  with j have "\<not> extinct (g_r st0') (g_s st0') (g_m st0') (g_n st0')
                 (fst (generation st0' (nat (curr_gen st))))
             \<and> int (nat (curr_gen st)) < max_gens st0'"
    by blast
  then have "\<not> extinct (g_r st0) (g_s st0) (g_m st0) (g_n st0)
                 (fst (generation st0 (nat (curr_gen st))))" "curr_gen st < max_gens st0"
    using assms(6,7) ge by simp_all
  then show False using complete_run_end [OF assms(1-3)] by auto
qed

text \<open>
  Claim C9, as the code has it. Take two runs on the same initial world with the same cap,
  each under any schedule in which no \<open>pthread_cond_wait\<close> returns spuriously, either with
  the same thread grid and the same contents of the second block, or with two thread
  grids whose rows divide \<open>m\<close> and whose columns divide \<open>n\<close>. Whenever the two runs are at
  the same generation they have printed the same text and have the same current world.
  When both have ended they are at the same generation, with the same \<open>break_flag\<close>, and
  \<open>main\<close> ends the same way with the same output. The reads and writes of \<open>live_count++\<close>
  may interleave in any way. (\<open>malloc 2\<close>: the second block has been allocated.)
\<close>

theorem runs_are_deterministic:
  assumes "main_start strtol malloc pthread_create argv inp coin junk1 junk2 = Started st0"
    and "0 < g_r st0" "0 < g_s st0" "0 \<le> g_m st0" "0 \<le> g_n st0" and "malloc 2"
    and "main_start strtol' malloc' pthread_create' argv' inp' coin' junk1' junk2' = Started st0'"
    and "0 < g_r st0'" "0 < g_s st0'" and "malloc' 2"
    and "g_m st0' = g_m st0" "g_n st0' = g_n st0" "max_gens st0' = max_gens st0"
    and "w1 st0' = w1 st0" "stdout st0' = stdout st0"
    and "(g_r st0' = g_r st0 \<and> g_s st0' = g_s st0 \<and> w2 st0' = w2 st0)
         \<or> (g_r st0 dvd g_m st0 \<and> g_s st0 dvd g_n st0
            \<and> g_r st0' dvd g_m st0 \<and> g_s st0' dvd g_n st0)"
    and "run sched st0 = Some st" "no_spurious_wakeup sched st0"
    and "run sched' st0' = Some st'" "no_spurious_wakeup sched' st0'"
  shows "(curr_gen st = curr_gen st' \<longrightarrow>
            stdout st = stdout st' \<and> deref st (g_wp st) = deref st' (g_wp st'))
    \<and> (list_all (\<lambda>th. pc th = Exited) (threads st)
        \<and> list_all (\<lambda>th. pc th = Exited) (threads st') \<longrightarrow>
          curr_gen st = curr_gen st' \<and> break_flag st = break_flag st'
          \<and> stdout st = stdout st'
          \<and> main strtol malloc pthread_create argv inp coin junk1 junk2 sched
              = main strtol' malloc' pthread_create' argv' inp' coin' junk1' junk2' sched')"
proof -
  have pos': "0 \<le> g_m st0'" "0 \<le> g_n st0'" using assms(4,5,11,12) by simp_all
  have wf0: "wf st0" using assms(1-6) by (rule main_start_wf)
  have wf0': "wf st0'" using assms(7-9) pos' assms(10) by (rule main_start_wf)
  have wf: "wf st" using assms(1-6,17) by (rule reachable_wf)
  have wf': "wf st'" using assms(7-9) pos' assms(10,19) by (rule reachable_wf)
  have inv: "all_inv st0 st" using assms(1-6,17,18) by (rule reachable_all_inv)
  have inv': "all_inv st0' st'" using assms(7-9) pos' assms(10,19,20) by (rule reachable_all_inv)
  have G: "fst (generation st0' k) = fst (generation st0 k)
         \<and> snd (snd (generation st0' k)) = snd (snd (generation st0 k))" for k
    using assms(16)
  proof
    assume "g_r st0' = g_r st0 \<and> g_s st0' = g_s st0 \<and> w2 st0' = w2 st0"
    then show ?thesis using assms(11,12,14,15) generation_same_start [of st0' st0 k] by simp
  next
    assume "g_r st0 dvd g_m st0 \<and> g_s st0 dvd g_n st0
            \<and> g_r st0' dvd g_m st0 \<and> g_s st0' dvd g_n st0"
    then show ?thesis using wf0 wf0' assms(11,12,14,15) by (intro generation_divisible) simp_all
  qed
  have E: "extinct (g_r st0') (g_s st0') (g_m st0') (g_n st0') cur
           \<longleftrightarrow> extinct (g_r st0) (g_s st0) (g_m st0) (g_n st0) cur" for cur
    using assms(16)
  proof
    assume "g_r st0' = g_r st0 \<and> g_s st0' = g_s st0 \<and> w2 st0' = w2 st0"
    then show ?thesis using assms(11,12) by simp
  next
    assume "g_r st0 dvd g_m st0 \<and> g_s st0 dvd g_n st0
            \<and> g_r st0' dvd g_m st0 \<and> g_s st0' dvd g_n st0"
    then show ?thesis using wf0 wf0' assms(11,12) by (intro extinct_same_divisible) simp_all
  qed
  have gen: "gen_inv st0 st" "gen_inv st0' st'" "sync_inv st" "sync_inv st'"
    using inv inv' by (simp_all add: all_inv_def)
  have same: "stdout st = stdout st' \<and> deref st (g_wp st) = deref st' (g_wp st')"
    if "curr_gen st = curr_gen st'"
    using gen(1,2) G [of "nat (curr_gen st)"] that by (simp add: gen_inv_def)
  have fin: "curr_gen st = curr_gen st' \<and> break_flag st = break_flag st'
          \<and> stdout st = stdout st'
          \<and> main strtol malloc pthread_create argv inp coin junk1 junk2 sched
              = main strtol' malloc' pthread_create' argv' inp' coin' junk1' junk2' sched'"
    if ex: "list_all (\<lambda>th. pc th = Exited) (threads st)"
        "list_all (\<lambda>th. pc th = Exited) (threads st')"
  proof -
    have EG: "extinct (g_r st0') (g_s st0') (g_m st0') (g_n st0') (fst (generation st0' k))
            \<longleftrightarrow> extinct (g_r st0) (g_s st0) (g_m st0) (g_n st0) (fst (generation st0 k))" for k
      using E G by simp
    have "curr_gen st' \<le> curr_gen st"
      using wf inv ex(1) wf' inv' assms(13) EG by (rule complete_runs_same_generation)
    moreover have "curr_gen st \<le> curr_gen st'"
      using wf' inv' ex(2) wf inv assms(13) [symmetric] EG [symmetric]
      by (rule complete_runs_same_generation)
    ultimately have k: "curr_gen st = curr_gen st'" by simp
    have "break_flag st = break_flag st'"
      using complete_run_end [OF wf inv ex(1)] complete_run_end [OF wf' inv' ex(2)] k assms(13)
      by auto
    moreover have "main strtol malloc pthread_create argv inp coin junk1 junk2 sched
                   = Terminated 0 (stdout st) []"
      using assms(1,17) join_threads_Exited [OF ex(1)] by (simp add: main_def)
    moreover have "main strtol' malloc' pthread_create' argv' inp' coin' junk1' junk2' sched'
                   = Terminated 0 (stdout st') []"
      using assms(7,19) join_threads_Exited [OF ex(2)] by (simp add: main_def)
    ultimately show ?thesis using k same by simp
  qed
  show ?thesis using same fin by blast
qed

theorem runs_are_deterministic_witness:
  "curr_gen (the (run (replicate 50 0) (example cap_1 top_row))) = 1
   \<and> stdout (the (run (replicate 50 0) (example cap_1 top_row)))
     = stdout (the (run three_threads_one_round (example shape_3x1_cap_1 top_row)))
   \<and> main numeral_value succeeds succeeds cap_1 all_X top_row zeros zeros (replicate 50 0)
     = main numeral_value succeeds succeeds shape_3x1_cap_1 all_X top_row zeros zeros
            three_threads_one_round"
proof -
  let ?a = "example cap_1 top_row"
  let ?b = "example shape_3x1_cap_1 top_row"
  let ?x = "the (run (replicate 50 0) ?a)"
  let ?y = "the (run three_threads_one_round ?b)"
  have 1: "main_start numeral_value succeeds succeeds cap_1 all_X top_row zeros zeros = Started ?a"
    unfolding example_def cap_1_def by code_simp
  have 2: "0 < g_r ?a" "0 < g_s ?a" "0 \<le> g_m ?a" "0 \<le> g_n ?a"
    unfolding example_def cap_1_def by code_simp+
  have m: "succeeds 2" by (simp add: succeeds_def)
  have 3: "main_start numeral_value succeeds succeeds shape_3x1_cap_1 all_X top_row zeros zeros
           = Started ?b"
    unfolding example_def shape_3x1_cap_1_def by code_simp
  have 4: "0 < g_r ?b" "0 < g_s ?b"
    unfolding example_def shape_3x1_cap_1_def by code_simp+
  have 5: "g_m ?b = g_m ?a" "g_n ?b = g_n ?a" "max_gens ?b = max_gens ?a"
    "w1 ?b = w1 ?a" "stdout ?b = stdout ?a"
    unfolding example_def shape_3x1_cap_1_def cap_1_def by code_simp+
  have "g_r ?a dvd g_m ?a \<and> g_s ?a dvd g_n ?a \<and> g_r ?b dvd g_m ?a \<and> g_s ?b dvd g_n ?a"
    unfolding example_def shape_3x1_cap_1_def cap_1_def by code_simp
  then have 6: "(g_r ?b = g_r ?a \<and> g_s ?b = g_s ?a \<and> w2 ?b = w2 ?a)
         \<or> (g_r ?a dvd g_m ?a \<and> g_s ?a dvd g_n ?a \<and> g_r ?b dvd g_m ?a \<and> g_s ?b dvd g_n ?a)"
    by simp
  have 7: "run (replicate 50 0) ?a = Some ?x" "no_spurious_wakeup (replicate 50 0) ?a"
    unfolding example_def cap_1_def by code_simp+
  have 8: "run three_threads_one_round ?b = Some ?y" "no_spurious_wakeup three_threads_one_round ?b"
    unfolding example_def shape_3x1_cap_1_def three_threads_one_round_def by code_simp+
  have 9: "list_all (\<lambda>th. pc th = Exited) (threads ?x)" "curr_gen ?x = 1"
    unfolding example_def cap_1_def by code_simp+
  have 10: "list_all (\<lambda>th. pc th = Exited) (threads ?y)"
    unfolding example_def shape_3x1_cap_1_def three_threads_one_round_def by code_simp
  show ?thesis
    using runs_are_deterministic [OF 1 2 m 3 4 m 5 6 7 8] 9 10 by simp
qed

theorem thread_grid_shape_changes_the_generations:
  "exit_status (main numeral_value succeeds succeeds cap_1 all_X top_row zeros zeros
                     (replicate 50 0)) = Some 0
   \<and> exit_status (main numeral_value succeeds succeeds shape_2x1_cap_1 all_X top_row zeros zeros
                        two_threads_one_round) = Some 0
   \<and> main numeral_value succeeds succeeds cap_1 all_X top_row zeros zeros (replicate 50 0)
     \<noteq> main numeral_value succeeds succeeds shape_2x1_cap_1 all_X top_row zeros zeros
            two_threads_one_round
   \<and> no_spurious_wakeup (replicate 50 0) (example cap_1 top_row)
   \<and> no_spurious_wakeup two_threads_one_round (example shape_2x1_cap_1 top_row)
   \<and> w1 (example cap_1 top_row) = w1 (example shape_2x1_cap_1 top_row)
   \<and> w2 (example cap_1 top_row) = w2 (example shape_2x1_cap_1 top_row)
   \<and> max_gens (example cap_1 top_row) = max_gens (example shape_2x1_cap_1 top_row)"
  unfolding example_def cap_1_def shape_2x1_cap_1_def two_threads_one_round_def by code_simp

section \<open>The two races\<close>

text \<open>
  Claim C4, where the code departs from it. The world of 4 rows and 3 columns holds a
  block in its two lower rows, a still life; two threads have two rows each, and the cap
  is 3. The thread 0 computes its tile, in which all is dead, and waits at the barrier.
  Its \<open>pthread_cond_wait\<close> returns although the thread 1 has not arrived: the loop around
  the wait tests the return value, not that the barrier is complete. The thread 0 goes
  round the loop again and arrives a second time, which makes \<open>barrier_count\<close> equal to
  \<open>thread_count\<close>, with \<open>live_count\<close> 0: it sets \<open>break_flag\<close> although four cells are
  alive, and returns. After that the thread 1 computes its whole tile of the next
  generation into the next buffer and blocks in the barrier, where no thread will wake
  it: it does not see the flag, and \<open>main\<close> stays in \<open>pthread_join\<close>. Without the spurious
  wakeup the same input reaches generation 1 with the flag not set.
\<close>

theorem spurious_wakeup_ends_the_run_early:
  "no_spurious_wakeup (replicate 8 0) still_life
   \<and> map pc (threads (the (run (replicate 8 0) still_life))) = [Waiting, Top]
   \<and> break_flag (the (run early_rendezvous still_life)) = 1
   \<and> curr_gen (the (run early_rendezvous still_life)) = 0
   \<and> live_cells (deref (the (run early_rendezvous still_life))
                         (g_wp (the (run early_rendezvous still_life)))) = 4
   \<and> live_cells (w2 (the (run early_rendezvous still_life))) = 0
   \<and> live_cells (w2 (the (run (early_rendezvous @ after_the_flag) still_life))) = 4
   \<and> break_flag (the (run (early_rendezvous @ after_the_flag) still_life)) = 1
   \<and> map pc (threads (the (run (early_rendezvous @ after_the_flag) still_life)))
       = [Exited, Waiting]
   \<and> barrier_count (the (run (early_rendezvous @ after_the_flag) still_life)) = 1
   \<and> main numeral_value succeeds succeeds still_life_argv lower_block top_row zeros zeros
           (early_rendezvous @ after_the_flag) = Joining
   \<and> no_spurious_wakeup (replicate 8 0 @ replicate 16 1) still_life
   \<and> curr_gen (the (run (replicate 8 0 @ replicate 16 1) still_life)) = 1
   \<and> break_flag (the (run (replicate 8 0 @ replicate 16 1) still_life)) = 0"
  unfolding still_life_def still_life_argv_def entered_def early_rendezvous_def
    after_the_flag_def
  by code_simp

text \<open>
  Claim C5, where the code departs from it. The world of 4 rows and 3 columns holds a
  block in its two middle rows, a still life with two live cells in the tile of each of
  the two threads. Both threads read \<open>live_count\<close>, 0, for their first live cell before
  either writes it back, so that both write 1: one increment is lost. No wait returns
  spuriously. When the thread 1, the last, has finished its tile and is about to enter the
  barrier, the other waiting there, \<open>live_count\<close> is 3, and the next buffer, which the
  tiles cover, holds 4 live cells.
\<close>

theorem live_count_loses_increments:
  "no_spurious_wakeup lost_update two_tiles
   \<and> map pc (threads (the (run lost_update two_tiles))) = [Waiting, Tile 6]
   \<and> length (tile_cells (threads (the (run lost_update two_tiles)) ! 1)) = 6
   \<and> barrier_count (the (run lost_update two_tiles)) + 1
       = thread_count (the (run lost_update two_tiles))
   \<and> g_r two_tiles dvd g_m two_tiles \<and> g_s two_tiles dvd g_n two_tiles
   \<and> live_count (the (run lost_update two_tiles)) = 3
   \<and> live_cells (deref (the (run lost_update two_tiles))
                         (g_twp (the (run lost_update two_tiles)))) = 4"
  unfolding two_tiles_def still_life_argv_def entered_def lost_update_def
  by code_simp

end
